theory Spec2Isabelle
  imports Main "HOL-Library.Word" "HOL-Library.Sublist" "HOL-Library.Multiset"
begin

unbundle bit_operations_syntax

section \<open>libsmack: rule engine, access codec, CIPSO ingestion\<close>

text \<open>
  A shallow embedding of \<^verbatim>\<open>src/libsmack/libsmack.c\<close>.  C strings are
  \<^typ>\<open>string\<close> values holding the bytes before the terminating NUL.  The \<^verbatim>\<open>int\<close>
  results \<^verbatim>\<open>0\<close> and \<^verbatim>\<open>-1\<close> of the library are kept as \<^typ>\<open>int\<close>.  Memory
  allocation (\<^verbatim>\<open>calloc\<close>, \<^verbatim>\<open>malloc\<close>, \<^verbatim>\<open>realloc\<close>), \<^verbatim>\<open>dup\<close>,
  \<^verbatim>\<open>fdopen\<close> and reading from an open stream are taken to succeed; every other failure
  branch of the source is a branch of the model.
\<close>

subsection \<open>Constants\<close>

text \<open>Modelled from the spec: \<^verbatim>\<open>SMACK_LABEL_LEN\<close> comes from \<^verbatim>\<open>sys/smack.h\<close>, which is
  not among the sources; the spec gives labels 1..255 bytes.\<close>

definition SMACK_LABEL_LEN :: nat where "SMACK_LABEL_LEN = 255"

definition SHORT_LABEL_LEN :: nat where "SHORT_LABEL_LEN = 23"
definition ACC_LEN :: nat where "ACC_LEN = 6"
definition LOAD_LEN :: nat where "LOAD_LEN = 2 * (SMACK_LABEL_LEN + 1) + 2 * ACC_LEN + 1"

definition LEVEL_MAX :: int where "LEVEL_MAX = 255"
definition BUF_SIZE :: nat where "BUF_SIZE = 512"
definition CAT_MAX_COUNT :: nat where "CAT_MAX_COUNT = 240"
definition CAT_MAX_VALUE :: nat where "CAT_MAX_VALUE = 63"

definition ACCESS_TYPE_R :: int where "ACCESS_TYPE_R = 0x01"
definition ACCESS_TYPE_W :: int where "ACCESS_TYPE_W = 0x02"
definition ACCESS_TYPE_X :: int where "ACCESS_TYPE_X = 0x04"
definition ACCESS_TYPE_A :: int where "ACCESS_TYPE_A = 0x08"
definition ACCESS_TYPE_T :: int where "ACCESS_TYPE_T = 0x10"
definition ACCESS_TYPE_L :: int where "ACCESS_TYPE_L = 0x20"

definition ACCESS_TYPE_ALL :: int where "ACCESS_TYPE_ALL = push_bit ACC_LEN 1 - 1"

definition DICT_HASH_SIZE :: nat where "DICT_HASH_SIZE = 4096"
definition MAX_LABELS_CNT :: nat where "MAX_LABELS_CNT = 65535 + 1"

subsection \<open>Access-code codec\<close>

text \<open>\<^verbatim>\<open>str_to_access_code\<close>: the \<^verbatim>\<open>for\<close> loop over the characters, with the
  accumulator \<^verbatim>\<open>code\<close>; the \<^verbatim>\<open>default\<close> branch returns \<^verbatim>\<open>-1\<close>.\<close>

fun str_to_access_code_loop :: "string \<Rightarrow> int \<Rightarrow> int" where
  "str_to_access_code_loop [] code = code"
| "str_to_access_code_loop (c # str) code =
     (if c = CHR ''r'' \<or> c = CHR ''R'' then str_to_access_code_loop str (code OR ACCESS_TYPE_R)
      else if c = CHR ''w'' \<or> c = CHR ''W'' then str_to_access_code_loop str (code OR ACCESS_TYPE_W)
      else if c = CHR ''x'' \<or> c = CHR ''X'' then str_to_access_code_loop str (code OR ACCESS_TYPE_X)
      else if c = CHR ''a'' \<or> c = CHR ''A'' then str_to_access_code_loop str (code OR ACCESS_TYPE_A)
      else if c = CHR ''t'' \<or> c = CHR ''T'' then str_to_access_code_loop str (code OR ACCESS_TYPE_T)
      else if c = CHR ''l'' \<or> c = CHR ''L'' then str_to_access_code_loop str (code OR ACCESS_TYPE_L)
      else if c = CHR ''-'' then str_to_access_code_loop str code
      else - 1)"

definition str_to_access_code :: "string \<Rightarrow> int" where
  "str_to_access_code str = str_to_access_code_loop str 0"

definition access_code_to_str :: "int \<Rightarrow> string" where
  "access_code_to_str code =
     [if code AND ACCESS_TYPE_R \<noteq> 0 then CHR ''r'' else CHR ''-'',
      if code AND ACCESS_TYPE_W \<noteq> 0 then CHR ''w'' else CHR ''-'',
      if code AND ACCESS_TYPE_X \<noteq> 0 then CHR ''x'' else CHR ''-'',
      if code AND ACCESS_TYPE_A \<noteq> 0 then CHR ''a'' else CHR ''-'',
      if code AND ACCESS_TYPE_T \<noteq> 0 then CHR ''t'' else CHR ''-'',
      if code AND ACCESS_TYPE_L \<noteq> 0 then CHR ''l'' else CHR ''-'']"

subsection \<open>Label validation and hashing\<close>

text \<open>The per-character test of \<^verbatim>\<open>get_label\<close>: \<^verbatim>\<open>src[i] <= ' ' || src[i] > '~'\<close>
  and the \<^verbatim>\<open>switch\<close>.  Bytes from 128 on are rejected whether \<^verbatim>\<open>char\<close> is signed
  (they compare below the space) or unsigned (above the tilde).\<close>

definition label_char_bad :: "char \<Rightarrow> bool" where
  "label_char_bad c =
     ((of_char c :: nat) \<le> 32 \<or> (of_char c :: nat) > 126 \<or>
      c = CHR ''/'' \<or> c = CHR 0x22 \<or> c = CHR 0x5C \<or> c = CHR 0x27)"

text \<open>The loop of \<^verbatim>\<open>get_label\<close>: index \<^verbatim>\<open>i\<close>, the rest of \<^verbatim>\<open>src\<close>, the bytes
  written to \<^verbatim>\<open>dest\<close> and the 32-bit DJB2 accumulator \<^verbatim>\<open>h\<close>.  \<open>None\<close> is the
  \<^verbatim>\<open>return -1\<close> inside the loop.\<close>

fun get_label_loop :: "nat \<Rightarrow> string \<Rightarrow> string \<Rightarrow> 32 word \<Rightarrow> (nat \<times> string \<times> 32 word) option" where
  "get_label_loop i [] dest h = Some (i, dest, h)"
| "get_label_loop i (c # src) dest h =
     (if i < SMACK_LABEL_LEN + 1 then
        (if label_char_bad c then None
         else get_label_loop (i + 1) src (dest @ [c]) (push_bit 5 h + h + of_nat (of_char c)))
      else Some (i, dest, h))"

text \<open>\<^verbatim>\<open>get_label\<close> returns the length or \<^verbatim>\<open>-1\<close>, the copy in \<^verbatim>\<open>dest\<close> and the
  bucket number \<^verbatim>\<open>h % DICT_HASH_SIZE\<close>; a caller that passed \<^verbatim>\<open>NULL\<close> ignores the
  component.  On failure the callers discard both outputs.\<close>

definition get_label :: "string \<Rightarrow> int \<times> string \<times> nat" where
  "get_label src =
     (if src = [] \<or> hd src = CHR ''-'' then (- 1, [], 0)
      else (case get_label_loop 0 src [] 5381 of
              None \<Rightarrow> (- 1, [], 0)
            | Some (i, dest, h) \<Rightarrow>
                (if i < SMACK_LABEL_LEN + 1 then int i else - 1, dest,
                 unat (h mod of_nat DICT_HASH_SIZE))))"

subsection \<open>The accesses engine\<close>

text \<open>\<^verbatim>\<open>struct smack_rule\<close>; the chain through \<^verbatim>\<open>next_rule\<close> is the list that holds
  the rule.  The codes are \<^verbatim>\<open>int8_t\<close> in the source; every value stored is \<^verbatim>\<open>-1\<close>
  or in 0..63 (lemma \<open>str_to_access_code_range\<close>), so the narrowing loses nothing.\<close>

record smack_rule =
  allow_code :: int
  deny_code :: int
  object_id :: nat

text \<open>\<^verbatim>\<open>struct smack_label\<close>: \<open>lid\<close> is the field \<^verbatim>\<open>id\<close>, \<open>rules\<close> the chain
  \<^verbatim>\<open>first_rule\<close> .. \<^verbatim>\<open>last_rule\<close>.  The chain \<^verbatim>\<open>next_label\<close> of a hash bucket
  is kept in the engine, as the list of the identifiers in the bucket.\<close>

record smack_label =
  len :: nat
  lid :: nat
  label :: string
  rules :: "smack_rule list"

text \<open>\<^verbatim>\<open>struct smack_accesses\<close>: the array \<^verbatim>\<open>labels\<close> with its count
  \<^verbatim>\<open>labels_cnt\<close> is the list \<open>labels\<close>; \<^verbatim>\<open>labels_alloc\<close> only drives
  \<^verbatim>\<open>realloc\<close>.\<close>

record smack_accesses =
  has_long :: bool
  labels :: "smack_label list"
  label_hash :: "nat \<Rightarrow> nat list"

definition smack_accesses_new :: smack_accesses where
  "smack_accesses_new = \<lparr>has_long = False, labels = [], label_hash = (\<lambda>_. [])\<rparr>"

text \<open>\<^verbatim>\<open>is_label_known\<close>: walk the bucket's chain until \<^verbatim>\<open>strcmp\<close> finds the label.\<close>

fun chain_find :: "smack_label list \<Rightarrow> string \<Rightarrow> nat list \<Rightarrow> nat option" where
  "chain_find ls s [] = None"
| "chain_find ls s (i # chain) = (if label (ls ! i) = s then Some i else chain_find ls s chain)"

definition is_label_known :: "smack_accesses \<Rightarrow> string \<Rightarrow> nat \<Rightarrow> nat option" where
  "is_label_known handle s hash = chain_find (labels handle) s (label_hash handle hash)"

text \<open>\<^verbatim>\<open>label_add\<close>: \<open>None\<close> is the \<^verbatim>\<open>NULL\<close> result, \<open>Some i\<close> the label
  \<^verbatim>\<open>handle->labels[i]\<close>.\<close>

definition label_add :: "smack_accesses \<Rightarrow> string \<Rightarrow> nat option \<times> smack_accesses" where
  "label_add handle s =
     (if length (labels handle) = MAX_LABELS_CNT then (None, handle)
      else (case get_label s of (n, _, hash_value) \<Rightarrow>
        if n = - 1 then (None, handle)
        else (case is_label_known handle s hash_value of
                Some i \<Rightarrow> (Some i, handle)
              | None \<Rightarrow>
                  (let new_label = \<lparr>len = nat n, lid = length (labels handle), label = s, rules = []\<rparr>
                   in (Some (length (labels handle)),
                       handle\<lparr>labels := labels handle @ [new_label],
                              label_hash := (label_hash handle)
                                (hash_value := label_hash handle hash_value @ [lid new_label])\<rparr>)))))"

definition append_rule :: "smack_accesses \<Rightarrow> nat \<Rightarrow> smack_rule \<Rightarrow> smack_accesses" where
  "append_rule handle sid rule =
     handle\<lparr>labels := (labels handle)
       [sid := (labels handle ! sid)\<lparr>rules := rules (labels handle ! sid) @ [rule]\<rparr>]\<rparr>"

text \<open>\<^verbatim>\<open>accesses_add\<close>; \<open>deny_access_type = None\<close> is the \<^verbatim>\<open>NULL\<close> argument.
  The engine is returned also when the call fails: labels interned and \<^verbatim>\<open>has_long\<close>
  set before the failure stay.\<close>

definition accesses_add ::
  "smack_accesses \<Rightarrow> string \<Rightarrow> string \<Rightarrow> string \<Rightarrow> string option \<Rightarrow> int \<times> smack_accesses" where
  "accesses_add handle subject object allow_access_type deny_access_type =
     (case label_add handle subject of
        (None, h1) \<Rightarrow> (- 1, h1)
      | (Some sid, h1) \<Rightarrow>
          (case label_add h1 object of
             (None, h2) \<Rightarrow> (- 1, h2)
           | (Some oid, h2) \<Rightarrow>
               (let h3 = (if len (labels h2 ! sid) > SHORT_LABEL_LEN \<or>
                             len (labels h2 ! oid) > SHORT_LABEL_LEN
                          then h2\<lparr>has_long := True\<rparr> else h2);
                    allow = str_to_access_code allow_access_type
                in if allow = - 1 then (- 1, h3)
                   else (case deny_access_type of
                           Some d \<Rightarrow>
                             (let deny = str_to_access_code d
                              in if deny = - 1 then (- 1, h3)
                                 else (0, append_rule h3 sid
                                        \<lparr>allow_code = allow, deny_code = deny, object_id = oid\<rparr>))
                         | None \<Rightarrow>
                             (0, append_rule h3 sid
                                  \<lparr>allow_code = allow,
                                   deny_code = ACCESS_TYPE_ALL AND NOT allow,
                                   object_id = oid\<rparr>)))))"

definition smack_accesses_add ::
  "smack_accesses \<Rightarrow> string \<Rightarrow> string \<Rightarrow> string \<Rightarrow> int \<times> smack_accesses" where
  "smack_accesses_add handle subject object access_type =
     accesses_add handle subject object access_type None"

definition smack_accesses_add_modify ::
  "smack_accesses \<Rightarrow> string \<Rightarrow> string \<Rightarrow> string \<Rightarrow> string \<Rightarrow> int \<times> smack_accesses" where
  "smack_accesses_add_modify handle subject object allow_access_type deny_access_type =
     accesses_add handle subject object allow_access_type (Some deny_access_type)"

subsection \<open>Writing to descriptors\<close>

text \<open>The answers of \<^verbatim>\<open>write(2)\<close> are the environment's: \<open>script\<close> lists the
  answers the coming calls get (bytes accepted, capped at the bytes offered; \<^verbatim>\<open>EINTR\<close>;
  another error); once it is used up, every call takes all it is offered.  \<open>wlog\<close>
  records, per call, the descriptor and the bytes it accepted.\<close>

datatype write_result = Wrote nat | Eintr | Eio

record world =
  script :: "write_result list"
  wlog :: "(int \<times> string) list"

definition sys_write :: "world \<Rightarrow> int \<Rightarrow> string \<Rightarrow> write_result \<times> world" where
  "sys_write w fd buf =
     (case script w of
        [] \<Rightarrow> (Wrote (length buf), w\<lparr>wlog := wlog w @ [(fd, buf)]\<rparr>)
      | Wrote n # rs \<Rightarrow>
          (Wrote (min n (length buf)),
           w\<lparr>script := rs, wlog := wlog w @ [(fd, take (min n (length buf)) buf)]\<rparr>)
      | Eintr # rs \<Rightarrow> (Eintr, w\<lparr>script := rs\<rparr>)
      | Eio # rs \<Rightarrow> (Eio, w\<lparr>script := rs\<rparr>))"

text \<open>The write loop of \<^verbatim>\<open>accesses_print\<close>:
  \<^verbatim>\<open>for (i = 0; i < cnt; ) { ret = write(fd, buf + i, cnt - i); ... i += ret; }\<close>;
  the argument is what is left of the buffer, \<^verbatim>\<open>buf + i\<close>.\<close>

function write_loop :: "int \<Rightarrow> string \<Rightarrow> world \<Rightarrow> int \<times> world" where
  "write_loop fd buf w =
     (if buf = [] then (0, w)
      else (case sys_write w fd buf of
              (Eintr, w') \<Rightarrow> write_loop fd buf w'
            | (Eio, w') \<Rightarrow> (- 1, w')
            | (Wrote n, w') \<Rightarrow> write_loop fd (drop n buf) w'))"
  by pat_completeness auto
termination
  by (relation "measure (\<lambda>(fd, buf, w). length (script w) + length buf)")
     (auto simp: sys_write_def split: list.splits write_result.splits)

declare write_loop.simps [simp del]

subsection \<open>Serialization\<close>

definition pad_right :: "nat \<Rightarrow> string \<Rightarrow> string" where
  "pad_right n s = s @ replicate (n - length s) CHR '' ''"

definition pad_left :: "nat \<Rightarrow> string \<Rightarrow> string" where
  "pad_left n s = replicate (n - length s) CHR '' '' @ s"

text \<open>\<^verbatim>\<open>KERNEL_LONG_FORMAT "%s %s %s"\<close>, \<^verbatim>\<open>KERNEL_SHORT_FORMAT "%-23s %-23s %5.5s"\<close>
  and \<^verbatim>\<open>KERNEL_MODIFY_FORMAT "%s %s %s %s"\<close>.  The buffer of \<^verbatim>\<open>LOAD_LEN + 1\<close> bytes
  holds every record of an engine (lemma \<open>record_fits_buffer\<close>), so \<^verbatim>\<open>snprintf\<close>
  does not truncate and returns the record's length.\<close>

definition KERNEL_LONG_FORMAT :: "string \<Rightarrow> string \<Rightarrow> string \<Rightarrow> string" where
  "KERNEL_LONG_FORMAT s ob a = s @ '' '' @ ob @ '' '' @ a"

definition KERNEL_SHORT_FORMAT :: "string \<Rightarrow> string \<Rightarrow> string \<Rightarrow> string" where
  "KERNEL_SHORT_FORMAT s ob a =
     pad_right 23 s @ '' '' @ pad_right 23 ob @ '' '' @ pad_left 5 (take 5 a)"

definition KERNEL_MODIFY_FORMAT :: "string \<Rightarrow> string \<Rightarrow> string \<Rightarrow> string \<Rightarrow> string" where
  "KERNEL_MODIFY_FORMAT s ob a d = s @ '' '' @ ob @ '' '' @ a @ '' '' @ d"

text \<open>The body of the inner loop of \<^verbatim>\<open>accesses_print\<close>, for one rule of
  \<open>subject_label\<close>: the result is \<^verbatim>\<open>-1\<close> where the source returns, \<^verbatim>\<open>0\<close> where
  the loop goes on.\<close>

definition print_rule ::
  "smack_accesses \<Rightarrow> bool \<Rightarrow> int \<Rightarrow> int \<Rightarrow> bool \<Rightarrow> bool \<Rightarrow> smack_label \<Rightarrow> smack_rule \<Rightarrow> world
     \<Rightarrow> int \<times> world" where
  "print_rule handle clear load_fd change_fd use_long add_lf subject_label rule w =
     (let object_label = labels handle ! object_id rule;
          allow_str = access_code_to_str (if clear then 0 else allow_code rule)
      in if (allow_code rule OR deny_code rule) \<noteq> ACCESS_TYPE_ALL \<and> \<not> clear then
           (if change_fd < 0 then (- 1, w)
            else (let deny_str = access_code_to_str (deny_code rule);
                      buf = KERNEL_MODIFY_FORMAT (label subject_label) (label object_label)
                              allow_str deny_str
                  in write_loop change_fd (if add_lf then buf @ [CHR 0x0A] else buf) w))
         else
           (let buf = (if use_long
                       then KERNEL_LONG_FORMAT (label subject_label) (label object_label) allow_str
                       else KERNEL_SHORT_FORMAT (label subject_label) (label object_label) allow_str)
            in write_loop load_fd (if add_lf then buf @ [CHR 0x0A] else buf) w))"

text \<open>The inner loop, over the rule chain of one subject.\<close>

fun print_rule_chain ::
  "smack_accesses \<Rightarrow> bool \<Rightarrow> int \<Rightarrow> int \<Rightarrow> bool \<Rightarrow> bool \<Rightarrow> smack_label \<Rightarrow> smack_rule list \<Rightarrow> world
     \<Rightarrow> int \<times> world" where
  "print_rule_chain handle clear load_fd change_fd use_long add_lf subject_label [] w = (0, w)"
| "print_rule_chain handle clear load_fd change_fd use_long add_lf subject_label (rule # rest) w =
     (case print_rule handle clear load_fd change_fd use_long add_lf subject_label rule w of
        (ret, w') \<Rightarrow>
          if ret = 0
          then print_rule_chain handle clear load_fd change_fd use_long add_lf subject_label rest w'
          else (- 1, w'))"

text \<open>The outer loop, over \<^verbatim>\<open>handle->labels[0 .. labels_cnt - 1]\<close>.\<close>

fun print_labels ::
  "smack_accesses \<Rightarrow> bool \<Rightarrow> int \<Rightarrow> int \<Rightarrow> bool \<Rightarrow> bool \<Rightarrow> smack_label list \<Rightarrow> world
     \<Rightarrow> int \<times> world" where
  "print_labels handle clear load_fd change_fd use_long add_lf [] w = (0, w)"
| "print_labels handle clear load_fd change_fd use_long add_lf (subject_label # rest) w =
     (case print_rule_chain handle clear load_fd change_fd use_long add_lf subject_label
             (rules subject_label) w of
        (ret, w') \<Rightarrow>
          if ret = 0
          then print_labels handle clear load_fd change_fd use_long add_lf rest w'
          else (- 1, w'))"

definition accesses_print ::
  "smack_accesses \<Rightarrow> bool \<Rightarrow> int \<Rightarrow> int \<Rightarrow> bool \<Rightarrow> bool \<Rightarrow> world \<Rightarrow> int \<times> world" where
  "accesses_print handle clear load_fd change_fd use_long add_lf w =
     (if \<not> use_long \<and> has_long handle then (- 1, w)
      else print_labels handle clear load_fd change_fd use_long add_lf (labels handle) w)"

definition smack_accesses_save :: "smack_accesses \<Rightarrow> int \<Rightarrow> world \<Rightarrow> int \<times> world" where
  "smack_accesses_save handle fd w = accesses_print handle False fd fd True True w"

text \<open>The policy filesystem is the environment's: what \<^verbatim>\<open>init_smackfs_mnt\<close> returns
  (an \<^verbatim>\<open>extern\<close> function) and what \<^verbatim>\<open>openat\<close> answers for a name under the mount
  point: a descriptor, \<^verbatim>\<open>ENOENT\<close>, or another error.\<close>

datatype open_result = Opened nat | Enoent | Eother

record smackfs =
  init_smackfs_mnt :: int
  openat :: "string \<Rightarrow> open_result"

text \<open>\<^verbatim>\<open>open_smackfs_file\<close> returns the descriptor (or \<^verbatim>\<open>-1\<close>) and the value left
  in \<^verbatim>\<open>*use_long\<close>, which it does not touch when it fails.\<close>

definition open_smackfs_file :: "smackfs \<Rightarrow> string \<Rightarrow> string \<Rightarrow> bool \<Rightarrow> int \<times> bool" where
  "open_smackfs_file fs long_name short_name use_long =
     (case openat fs long_name of
        Opened fd \<Rightarrow> (int fd, True)
      | Eother \<Rightarrow> (- 1, use_long)
      | Enoent \<Rightarrow>
          (case openat fs short_name of
             Opened fd \<Rightarrow> (int fd, False)
           | _ \<Rightarrow> (- 1, use_long)))"

definition accesses_apply :: "smackfs \<Rightarrow> smack_accesses \<Rightarrow> bool \<Rightarrow> world \<Rightarrow> int \<times> world" where
  "accesses_apply fs handle clear w =
     (if init_smackfs_mnt fs \<noteq> 0 then (- 1, w)
      else (case open_smackfs_file fs ''load2'' ''load'' True of
              (load_fd, use_long) \<Rightarrow>
                if load_fd < 0 then (- 1, w)
                else (case openat fs ''change-rule'' of
                        Eother \<Rightarrow> (- 1, w)
                      | Enoent \<Rightarrow> accesses_print handle clear load_fd (- 1) use_long False w
                      | Opened change_fd \<Rightarrow>
                          accesses_print handle clear load_fd (int change_fd) use_long False w)))"

definition smack_accesses_apply :: "smackfs \<Rightarrow> smack_accesses \<Rightarrow> world \<Rightarrow> int \<times> world" where
  "smack_accesses_apply fs handle w = accesses_apply fs handle False w"


subsection \<open>Reading lines and tokens\<close>

text \<open>\<^verbatim>\<open>fgets(buf, size, file)\<close> on the bytes still to be read: at most \<^verbatim>\<open>size - 1\<close>
  bytes, up to and with the first newline; the result pairs the bytes read with the rest
  of the stream.  \<open>None\<close> is the \<^verbatim>\<open>NULL\<close> at the end of the stream.\<close>

fun fgets_chunk :: "nat \<Rightarrow> string \<Rightarrow> string \<times> string" where
  "fgets_chunk n [] = ([], [])"
| "fgets_chunk n (c # cs) =
     (if n \<le> 1 then ([], c # cs)
      else if c = CHR 0x0A then ([c], cs)
      else (case fgets_chunk (n - 1) cs of (a, b) \<Rightarrow> (c # a, b)))"

definition fgets :: "nat \<Rightarrow> string \<Rightarrow> (string \<times> string) option" where
  "fgets n file = (if file = [] then None else Some (fgets_chunk n file))"

text \<open>The bytes of a buffer seen as a C string: those before the first NUL.\<close>

definition c_str :: "string \<Rightarrow> string" where
  "c_str buf = takeWhile (\<lambda>c. c \<noteq> CHR 0x00) buf"

text \<open>\<^verbatim>\<open>strtok_r(s, " \t\n", &ptr)\<close>: the token (or \<^verbatim>\<open>NULL\<close>) and the string left
  in \<^verbatim>\<open>ptr\<close>.\<close>

definition is_delim :: "char \<Rightarrow> bool" where
  "is_delim c = (c = CHR '' '' \<or> c = CHR 0x09 \<or> c = CHR 0x0A)"

definition strtok_r :: "string \<Rightarrow> string option \<times> string" where
  "strtok_r s =
     (let s' = dropWhile is_delim s
      in if s' = [] then (None, [])
         else (Some (takeWhile (\<lambda>c. \<not> is_delim c) s'),
               drop 1 (dropWhile (\<lambda>c. \<not> is_delim c) s')))"

lemma fgets_chunk_rest_le: "length (snd (fgets_chunk n inp)) \<le> length inp"
  by (induction n inp rule: fgets_chunk.induct) (auto split: prod.splits)

lemma fgets_shorter:
  assumes "fgets n inp = Some (chunk, rest)" and "2 \<le> n"
  shows "length rest < length inp"
proof (cases inp)
  case Nil
  with assms show ?thesis by (simp add: fgets_def)
next
  case (Cons c cs)
  have "length (snd (fgets_chunk (n - 1) cs)) \<le> length cs"
    by (rule fgets_chunk_rest_le)
  with assms Cons show ?thesis
    by (auto simp: fgets_def split: if_splits prod.splits)
qed

subsection \<open>Bulk loading of rules\<close>

text \<open>The body of the \<^verbatim>\<open>while\<close> loop of \<^verbatim>\<open>smack_accesses_add_from_file\<close> for a
  line that is not blank: four \<^verbatim>\<open>strtok_r\<close> calls, the check of the token count (the
  fifth call), and the add.\<close>

definition add_line :: "smack_accesses \<Rightarrow> string \<Rightarrow> int \<times> smack_accesses" where
  "add_line accesses buf =
     (case strtok_r buf of (subject, p1) \<Rightarrow>
      case strtok_r p1 of (object, p2) \<Rightarrow>
      case strtok_r p2 of (access, p3) \<Rightarrow>
      case strtok_r p3 of (access2, p4) \<Rightarrow>
        (case (subject, object, access) of
           (Some s, Some ob, Some a) \<Rightarrow>
             if fst (strtok_r p4) \<noteq> None then (- 1, accesses)
             else (case access2 of
                     None \<Rightarrow> smack_accesses_add accesses s ob a
                   | Some a2 \<Rightarrow> smack_accesses_add_modify accesses s ob a a2)
         | _ \<Rightarrow> (- 1, accesses)))"

function add_from_file_loop :: "smack_accesses \<Rightarrow> string \<Rightarrow> int \<times> smack_accesses" where
  "add_from_file_loop accesses file =
     (case fgets (LOAD_LEN + 1) file of
        None \<Rightarrow> (0, accesses)
      | Some (chunk, rest) \<Rightarrow>
          if c_str chunk = [CHR 0x0A] then add_from_file_loop accesses rest
          else (case add_line accesses (c_str chunk) of
                  (ret, accesses') \<Rightarrow>
                    if ret \<noteq> 0 then (- 1, accesses')
                    else add_from_file_loop accesses' rest))"
  by pat_completeness auto
termination
  by (relation "measure (\<lambda>(accesses, file). length file)")
     (auto dest!: fgets_shorter simp: LOAD_LEN_def)

declare add_from_file_loop.simps [simp del]

text \<open>\<open>file\<close> is what the descriptor still has to deliver.\<close>

definition smack_accesses_add_from_file :: "smack_accesses \<Rightarrow> string \<Rightarrow> int \<times> smack_accesses" where
  "smack_accesses_add_from_file accesses file = add_from_file_loop accesses file"

subsection \<open>CIPSO mappings\<close>

text \<open>The C library's \<^verbatim>\<open>strtol(nptr, NULL, 10)\<close> with a 64-bit \<^verbatim>\<open>long\<close>: white space,
  an optional sign, the longest run of digits (none gives 0); the second component tells
  whether \<^verbatim>\<open>errno\<close> was set (\<^verbatim>\<open>ERANGE\<close>, with the value clamped).\<close>

definition isspace :: "char \<Rightarrow> bool" where
  "isspace c = (c = CHR '' '' \<or> (9 \<le> (of_char c :: nat) \<and> (of_char c :: nat) \<le> 13))"

definition isdigit :: "char \<Rightarrow> bool" where
  "isdigit c = (48 \<le> (of_char c :: nat) \<and> (of_char c :: nat) \<le> 57)"

fun strtol_digits :: "string \<Rightarrow> int \<Rightarrow> int" where
  "strtol_digits [] acc = acc"
| "strtol_digits (c # cs) acc =
     (if isdigit c then strtol_digits cs (acc * 10 + (int (of_char c) - 48)) else acc)"

definition LONG_MAX :: int where "LONG_MAX = 2 ^ 63 - 1"
definition LONG_MIN :: int where "LONG_MIN = - (2 ^ 63)"

definition strtol :: "string \<Rightarrow> int \<times> bool" where
  "strtol nptr =
     (let s = dropWhile isspace nptr;
          neg = (s \<noteq> [] \<and> hd s = CHR ''-'');
          s' = (if s \<noteq> [] \<and> (hd s = CHR ''-'' \<or> hd s = CHR ''+'') then tl s else s);
          v = strtol_digits s' 0
      in if neg then (if - v < LONG_MIN then (LONG_MIN, True) else (- v, False))
         else (if v > LONG_MAX then (LONG_MAX, True) else (v, False)))"

text \<open>\<^verbatim>\<open>struct cipso_mapping\<close>: \<open>clabel\<close> is the field \<^verbatim>\<open>label\<close>; \<open>cats\<close> is the
  array \<^verbatim>\<open>int cats[CAT_MAX_VALUE]\<close>, a list of that many elements.\<close>

record cipso_mapping =
  clabel :: string
  cats :: "int list"
  ncats :: int
  level :: int

text \<open>\<^verbatim>\<open>struct smack_cipso\<close>: \<open>mappings\<close> is the chain \<^verbatim>\<open>first\<close> .. \<^verbatim>\<open>last\<close>.\<close>

record smack_cipso =
  cipso_has_long :: bool
  mappings :: "cipso_mapping list"

definition smack_cipso_new :: smack_cipso where
  "smack_cipso_new = \<lparr>cipso_has_long = False, mappings = []\<rparr>"

text \<open>A store \<^verbatim>\<open>mapping->cats[i] = val\<close> with \<open>i\<close> beyond the array is undefined
  behaviour in C (it runs over \<^verbatim>\<open>ncats\<close>, \<^verbatim>\<open>level\<close>, \<^verbatim>\<open>next\<close> and then the heap);
  the model stops there with the index.\<close>

datatype mem_fault = Cats_overflow nat

text \<open>The category loop
  \<^verbatim>\<open>for (i = 0; i < CAT_MAX_COUNT && cat != NULL; i++)\<close>: the result is the status
  (\<^verbatim>\<open>-1\<close> for \<^verbatim>\<open>goto err_out\<close>), the final \<open>i\<close> and the array.\<close>

function cats_loop ::
  "nat \<Rightarrow> string option \<Rightarrow> string \<Rightarrow> int list \<Rightarrow> mem_fault + (int \<times> nat \<times> int list)" where
  "cats_loop i cat ptr cs =
     (case cat of
        None \<Rightarrow> Inr (0, i, cs)
      | Some tok \<Rightarrow>
          if i < CAT_MAX_COUNT then
            (case strtol tok of (val, err) \<Rightarrow>
               if err then Inr (- 1, i, cs)
               else if val < 0 \<or> val > int CAT_MAX_VALUE then Inr (- 1, i, cs)
               else if i < length cs then
                 (case strtok_r ptr of (cat', ptr') \<Rightarrow> cats_loop (i + 1) cat' ptr' (cs[i := val]))
               else Inl (Cats_overflow i))
          else Inr (0, i, cs))"
  by pat_completeness auto
termination
  by (relation "measure (\<lambda>(i, cat, ptr, cs). CAT_MAX_COUNT - i)") auto

declare cats_loop.simps [simp del]

text \<open>The body of the \<^verbatim>\<open>while\<close> loop of \<^verbatim>\<open>smack_cipso_add_from_file\<close>: the mapping
  starts zeroed (\<^verbatim>\<open>calloc\<close>) and is linked in at the end.\<close>

definition cipso_add_line :: "smack_cipso \<Rightarrow> string \<Rightarrow> mem_fault + (int \<times> smack_cipso)" where
  "cipso_add_line cipso buf =
     (case strtok_r buf of (lab, p1) \<Rightarrow>
      case strtok_r p1 of (lev, p2) \<Rightarrow>
      case strtok_r p2 of (cat, p3) \<Rightarrow>
        (case (lev, lab) of
           (Some level_tok, Some label_tok) \<Rightarrow>
             (case get_label label_tok of (n, dest, _) \<Rightarrow>
                if n < 0 then Inr (- 1, cipso)
                else
                  (let cipso1 = (if n > int SHORT_LABEL_LEN
                                 then cipso\<lparr>cipso_has_long := True\<rparr> else cipso)
                   in (case strtol level_tok of (v, err) \<Rightarrow>
                         if err then Inr (- 1, cipso1)
                         else if v < 0 \<or> v > LEVEL_MAX then Inr (- 1, cipso1)
                         else (case cats_loop 0 cat p3 (replicate CAT_MAX_VALUE 0) of
                                 Inl fault \<Rightarrow> Inl fault
                               | Inr (ret, i, cs) \<Rightarrow>
                                   if ret \<noteq> 0 then Inr (- 1, cipso1)
                                   else Inr (0, cipso1\<lparr>mappings := mappings cipso1 @
                                          [\<lparr>clabel = dest, cats = cs, ncats = int i,
                                            level = v\<rparr>]\<rparr>)))))
         | _ \<Rightarrow> Inr (- 1, cipso)))"

function cipso_file_loop :: "smack_cipso \<Rightarrow> string \<Rightarrow> mem_fault + (int \<times> smack_cipso)" where
  "cipso_file_loop cipso file =
     (case fgets BUF_SIZE file of
        None \<Rightarrow> Inr (0, cipso)
      | Some (chunk, rest) \<Rightarrow>
          (case cipso_add_line cipso (c_str chunk) of
             Inl fault \<Rightarrow> Inl fault
           | Inr (ret, cipso') \<Rightarrow>
               if ret \<noteq> 0 then Inr (- 1, cipso') else cipso_file_loop cipso' rest))"
  by pat_completeness auto
termination
  by (relation "measure (\<lambda>(cipso, file). length file)")
     (auto dest!: fgets_shorter simp: BUF_SIZE_def)

declare cipso_file_loop.simps [simp del]

definition smack_cipso_add_from_file :: "smack_cipso \<Rightarrow> string \<Rightarrow> mem_fault + (int \<times> smack_cipso)" where
  "smack_cipso_add_from_file cipso file = cipso_file_loop cipso file"

section \<open>Notions of the specification\<close>

text \<open>The canonical lowercase form of a permission string, and the well-formed
  6-character permission strings: position by position \<^verbatim>\<open>r w x a t l\<close>, each in either
  case or replaced by a dash.\<close>

definition to_lower :: "char \<Rightarrow> char" where
  "to_lower c = (if 65 \<le> (of_char c :: nat) \<and> (of_char c :: nat) \<le> 90
                 then char_of ((of_char c :: nat) + 32) else c)"

definition canonical_lowercase :: "string \<Rightarrow> string" where
  "canonical_lowercase s = map to_lower s"

definition well_formed_perm :: "string \<Rightarrow> bool" where
  "well_formed_perm s =
     list_all2 (\<lambda>(lo, up) c. c = lo \<or> c = up \<or> c = CHR ''-'') (zip ''rwxatl'' ''RWXATL'') s"

definition perm_alphabet :: "char set" where
  "perm_alphabet = set ''rwxatlRWXATL-''"

definition valid_label :: "string \<Rightarrow> bool" where
  "valid_label s =
     (1 \<le> length s \<and> length s \<le> 255 \<and> hd s \<noteq> CHR ''-'' \<and>
      list_all (\<lambda>c. 32 < (of_char c :: nat) \<and> (of_char c :: nat) < 127 \<and>
                  c \<noteq> CHR ''/'' \<and> c \<noteq> CHR 0x22 \<and> c \<noteq> CHR 0x5C \<and> c \<noteq> CHR 0x27) s)"

text \<open>The bucket of a label: the hash that \<^verbatim>\<open>get_label\<close> hands to \<^verbatim>\<open>label_add\<close>.\<close>

definition label_bucket :: "string \<Rightarrow> nat" where
  "label_bucket s = snd (snd (get_label s))"

definition code_ok :: "int \<Rightarrow> bool" where
  "code_ok c = (0 \<le> c \<and> c < 64)"

definition rule_ok :: "smack_accesses \<Rightarrow> smack_rule \<Rightarrow> bool" where
  "rule_ok e r = (object_id r < length (labels e) \<and> code_ok (allow_code r) \<and> code_ok (deny_code r))"

text \<open>The representation invariant of an engine: at most \<^verbatim>\<open>MAX_LABELS_CNT\<close> labels, all
  valid and pairwise different, each stored at the index that is its identifier and listed
  in the bucket of its hash; the buckets list nothing else; every rule points to a label of
  the engine and carries two 6-bit codes.\<close>

definition engine_inv :: "smack_accesses \<Rightarrow> bool" where
  "engine_inv e =
     (length (labels e) \<le> MAX_LABELS_CNT \<and>
      distinct (map label (labels e)) \<and>
      (\<forall>i<length (labels e).
          lid (labels e ! i) = i \<and> valid_label (label (labels e ! i)) \<and>
          len (labels e ! i) = length (label (labels e ! i)) \<and>
          i \<in> set (label_hash e (label_bucket (label (labels e ! i)))) \<and>
          (\<forall>r\<in>set (rules (labels e ! i)). rule_ok e r)) \<and>
      (\<forall>h. \<forall>i\<in>set (label_hash e h).
          i < length (labels e) \<and> label_bucket (label (labels e ! i)) = h))"

text \<open>A rule is a modify rule when its two masks do not cover all six bits.\<close>

definition is_modify_rule :: "smack_rule \<Rightarrow> bool" where
  "is_modify_rule r = (allow_code r OR deny_code r \<noteq> ACCESS_TYPE_ALL)"

text \<open>The engines the library builds: a new one, and what the adding operations leave,
  whether they succeed or fail.\<close>

inductive reachable :: "smack_accesses \<Rightarrow> bool" where
  new: "reachable smack_accesses_new"
| add: "reachable e \<Longrightarrow> reachable (snd (smack_accesses_add e subject object access_type))"
| add_modify: "reachable e \<Longrightarrow>
    reachable (snd (smack_accesses_add_modify e subject object allow_access_type deny_access_type))"
| add_from_file: "reachable e \<Longrightarrow> reachable (snd (smack_accesses_add_from_file e inp))"

text \<open>What a successful \<^verbatim>\<open>accesses_add\<close> did.\<close>

definition new_rule :: "string \<Rightarrow> string option \<Rightarrow> nat \<Rightarrow> smack_rule" where
  "new_rule a d oid =
     \<lparr>allow_code = str_to_access_code a,
      deny_code = (case d of Some ds \<Rightarrow> str_to_access_code ds
                   | None \<Rightarrow> ACCESS_TYPE_ALL AND NOT (str_to_access_code a)),
      object_id = oid\<rparr>"

definition mark_long :: "smack_accesses \<Rightarrow> nat \<Rightarrow> nat \<Rightarrow> smack_accesses" where
  "mark_long h sid oid =
     (if len (labels h ! sid) > SHORT_LABEL_LEN \<or> len (labels h ! oid) > SHORT_LABEL_LEN
      then h\<lparr>has_long := True\<rparr> else h)"

text \<open>What \<^verbatim>\<open>has_long\<close> tells: when it is set, some interned label is longer than
  \<^verbatim>\<open>SHORT_LABEL_LEN\<close>; and it is set whenever the subject or the object of a stored rule
  is.\<close>

definition has_long_inv :: "smack_accesses \<Rightarrow> bool" where
  "has_long_inv e =
     ((has_long e \<longrightarrow> (\<exists>i<length (labels e). SHORT_LABEL_LEN < len (labels e ! i))) \<and>
      (\<forall>i<length (labels e). \<forall>r\<in>set (rules (labels e ! i)).
          SHORT_LABEL_LEN < len (labels e ! i) \<or>
          SHORT_LABEL_LEN < len (labels e ! object_id r) \<longrightarrow> has_long e))"

text \<open>The bytes a log shows for one descriptor.\<close>

definition bytes_on :: "int \<Rightarrow> (int \<times> string) list \<Rightarrow> string" where
  "bytes_on fd evs = concat (map snd (filter (\<lambda>ev. fst ev = fd) evs))"

text \<open>The record \<^verbatim>\<open>accesses_print\<close> means to write for one rule, with its descriptor;
  \<open>None\<close> where it gives up: a modify rule and no change-rule descriptor.\<close>

definition rule_record ::
  "smack_accesses \<Rightarrow> bool \<Rightarrow> int \<Rightarrow> int \<Rightarrow> bool \<Rightarrow> bool \<Rightarrow> smack_label \<times> smack_rule
     \<Rightarrow> (int \<times> string) option" where
  "rule_record e clear load_fd change_fd use_long add_lf lr =
     (case lr of (subject_label, r) \<Rightarrow>
        (let ob = label (labels e ! object_id r);
             a = access_code_to_str (if clear then 0 else allow_code r);
             lf = (if add_lf then [CHR 0x0A] else [])
         in if is_modify_rule r \<and> \<not> clear then
              (if change_fd < 0 then None
               else Some (change_fd, KERNEL_MODIFY_FORMAT (label subject_label) ob a
                                       (access_code_to_str (deny_code r)) @ lf))
            else Some (load_fd,
                       (if use_long then KERNEL_LONG_FORMAT (label subject_label) ob a
                        else KERNEL_SHORT_FORMAT (label subject_label) ob a) @ lf)))"

text \<open>The rules of an engine in the order of the two loops of \<^verbatim>\<open>accesses_print\<close>, each
  with its subject.\<close>

definition rule_seq :: "smack_accesses \<Rightarrow> (smack_label \<times> smack_rule) list" where
  "rule_seq e = concat (map (\<lambda>l. map (Pair l) (rules l)) (labels e))"

text \<open>Writing a list of records in turn, stopping at the first \<open>None\<close> and at the first
  write that fails.\<close>

fun emit :: "(int \<times> string) option list \<Rightarrow> world \<Rightarrow> int \<times> world" where
  "emit [] w = (0, w)"
| "emit (None # rest) w = (- 1, w)"
| "emit (Some (fd, buf) # rest) w =
     (case write_loop fd buf w of (ret, w') \<Rightarrow> if ret = 0 then emit rest w' else (- 1, w'))"

text \<open>The load record of the kernel interface, byte by byte: long, the three fields with
  one space between them; short, subject and object filled with spaces to 23 columns and
  the first five characters of the access field.\<close>

definition load_line :: "bool \<Rightarrow> string \<Rightarrow> string \<Rightarrow> string \<Rightarrow> string" where
  "load_line use_long s ob acs =
     (if use_long then s @ '' '' @ ob @ '' '' @ acs
      else s @ replicate (23 - length s) CHR '' '' @ '' '' @
           ob @ replicate (23 - length ob) CHR '' '' @ '' '' @ take 5 acs)"

text \<open>The records of a list up to its first \<open>None\<close>.\<close>

fun planned :: "'a option list \<Rightarrow> 'a list" where
  "planned [] = []"
| "planned (None # p) = []"
| "planned (Some x # p) = x # planned p"

text \<open>The load records of the rules that precede the first modify rule of the engine, in
  the order in which \<^verbatim>\<open>accesses_print\<close> visits the rules.\<close>

definition load_records_before_modify :: "smack_accesses \<Rightarrow> bool \<Rightarrow> string list" where
  "load_records_before_modify e use_long =
     map (\<lambda>x. load_line use_long (label (fst x)) (label (labels e ! object_id (snd x)))
                 (access_code_to_str (allow_code (snd x))))
       (takeWhile (\<lambda>x. \<not> is_modify_rule (snd x)) (rule_seq e))"

section \<open>The access-code codec\<close>

lemma acc_pow:
  "ACCESS_TYPE_R = 2 ^ 0" "ACCESS_TYPE_W = 2 ^ 1" "ACCESS_TYPE_X = 2 ^ 2"
  "ACCESS_TYPE_A = 2 ^ 3" "ACCESS_TYPE_T = 2 ^ 4" "ACCESS_TYPE_L = 2 ^ 5"
  by (simp_all add: ACCESS_TYPE_R_def ACCESS_TYPE_W_def ACCESS_TYPE_X_def ACCESS_TYPE_A_def
      ACCESS_TYPE_T_def ACCESS_TYPE_L_def)

lemma and_pow_bit: "(code AND (2::int) ^ k \<noteq> 0) = bit code k"
  by (simp add: bit_iff_and_push_bit_not_eq_0 push_bit_eq_mult)

lemma access_code_to_str_bits:
  "access_code_to_str code =
     [if bit code 0 then CHR ''r'' else CHR ''-'', if bit code 1 then CHR ''w'' else CHR ''-'',
      if bit code 2 then CHR ''x'' else CHR ''-'', if bit code 3 then CHR ''a'' else CHR ''-'',
      if bit code 4 then CHR ''t'' else CHR ''-'', if bit code 5 then CHR ''l'' else CHR ''-'']"
  unfolding access_code_to_str_def acc_pow and_pow_bit by (rule refl)

definition perm_bit :: "nat \<Rightarrow> char \<Rightarrow> int" where
  "perm_bit k c = (if c = CHR ''-'' then 0 else 2 ^ k)"

lemma loop_step:
  "c \<in> {CHR ''r'', CHR ''R'', CHR ''-''} \<Longrightarrow>
     str_to_access_code_loop (c # s) code = str_to_access_code_loop s (code OR perm_bit 0 c)"
  "c \<in> {CHR ''w'', CHR ''W'', CHR ''-''} \<Longrightarrow>
     str_to_access_code_loop (c # s) code = str_to_access_code_loop s (code OR perm_bit 1 c)"
  "c \<in> {CHR ''x'', CHR ''X'', CHR ''-''} \<Longrightarrow>
     str_to_access_code_loop (c # s) code = str_to_access_code_loop s (code OR perm_bit 2 c)"
  "c \<in> {CHR ''a'', CHR ''A'', CHR ''-''} \<Longrightarrow>
     str_to_access_code_loop (c # s) code = str_to_access_code_loop s (code OR perm_bit 3 c)"
  "c \<in> {CHR ''t'', CHR ''T'', CHR ''-''} \<Longrightarrow>
     str_to_access_code_loop (c # s) code = str_to_access_code_loop s (code OR perm_bit 4 c)"
  "c \<in> {CHR ''l'', CHR ''L'', CHR ''-''} \<Longrightarrow>
     str_to_access_code_loop (c # s) code = str_to_access_code_loop s (code OR perm_bit 5 c)"
  by (elim insertE emptyE; simp add: perm_bit_def acc_pow)+

lemma bit_perm_bit: "bit (perm_bit k c) j \<longleftrightarrow> c \<noteq> CHR ''-'' \<and> j = k"
  by (simp add: perm_bit_def bit_exp_iff)

lemma to_lower_vals:
  "to_lower CHR ''r'' = CHR ''r''" "to_lower CHR ''R'' = CHR ''r''"
  "to_lower CHR ''w'' = CHR ''w''" "to_lower CHR ''W'' = CHR ''w''"
  "to_lower CHR ''x'' = CHR ''x''" "to_lower CHR ''X'' = CHR ''x''"
  "to_lower CHR ''a'' = CHR ''a''" "to_lower CHR ''A'' = CHR ''a''"
  "to_lower CHR ''t'' = CHR ''t''" "to_lower CHR ''T'' = CHR ''t''"
  "to_lower CHR ''l'' = CHR ''l''" "to_lower CHR ''L'' = CHR ''l''"
  "to_lower CHR ''-'' = CHR ''-''"
  by code_simp+

lemma to_lower_perm:
  "c \<in> {CHR ''r'', CHR ''R'', CHR ''-''} \<Longrightarrow> to_lower c = (if c \<noteq> CHR ''-'' then CHR ''r'' else CHR ''-'')"
  "c \<in> {CHR ''w'', CHR ''W'', CHR ''-''} \<Longrightarrow> to_lower c = (if c \<noteq> CHR ''-'' then CHR ''w'' else CHR ''-'')"
  "c \<in> {CHR ''x'', CHR ''X'', CHR ''-''} \<Longrightarrow> to_lower c = (if c \<noteq> CHR ''-'' then CHR ''x'' else CHR ''-'')"
  "c \<in> {CHR ''a'', CHR ''A'', CHR ''-''} \<Longrightarrow> to_lower c = (if c \<noteq> CHR ''-'' then CHR ''a'' else CHR ''-'')"
  "c \<in> {CHR ''t'', CHR ''T'', CHR ''-''} \<Longrightarrow> to_lower c = (if c \<noteq> CHR ''-'' then CHR ''t'' else CHR ''-'')"
  "c \<in> {CHR ''l'', CHR ''L'', CHR ''-''} \<Longrightarrow> to_lower c = (if c \<noteq> CHR ''-'' then CHR ''l'' else CHR ''-'')"
  by (auto simp: to_lower_vals)

lemma well_formed_permD:
  assumes "well_formed_perm s"
  shows "\<exists>c0 c1 c2 c3 c4 c5. s = [c0, c1, c2, c3, c4, c5] \<and>
    c0 \<in> {CHR ''r'', CHR ''R'', CHR ''-''} \<and> c1 \<in> {CHR ''w'', CHR ''W'', CHR ''-''} \<and>
    c2 \<in> {CHR ''x'', CHR ''X'', CHR ''-''} \<and> c3 \<in> {CHR ''a'', CHR ''A'', CHR ''-''} \<and>
    c4 \<in> {CHR ''t'', CHR ''T'', CHR ''-''} \<and> c5 \<in> {CHR ''l'', CHR ''L'', CHR ''-''}"
  using assms unfolding well_formed_perm_def
  by (clarsimp simp: list_all2_Cons1)

lemma format_parse_wf:
  assumes "well_formed_perm s"
  shows "access_code_to_str (str_to_access_code s) = canonical_lowercase s"
proof -
  from assms obtain c0 c1 c2 c3 c4 c5 where s: "s = [c0, c1, c2, c3, c4, c5]" and
    c: "c0 \<in> {CHR ''r'', CHR ''R'', CHR ''-''}" "c1 \<in> {CHR ''w'', CHR ''W'', CHR ''-''}"
    "c2 \<in> {CHR ''x'', CHR ''X'', CHR ''-''}" "c3 \<in> {CHR ''a'', CHR ''A'', CHR ''-''}"
    "c4 \<in> {CHR ''t'', CHR ''T'', CHR ''-''}" "c5 \<in> {CHR ''l'', CHR ''L'', CHR ''-''}"
    using well_formed_permD [OF assms] by (elim exE conjE) (rule that)
  have code: "str_to_access_code s =
      (((((0 OR perm_bit 0 c0) OR perm_bit 1 c1) OR perm_bit 2 c2) OR perm_bit 3 c3)
         OR perm_bit 4 c4) OR perm_bit 5 c5"
    unfolding s str_to_access_code_def
    by (simp only: loop_step(1)[OF c(1)] loop_step(2)[OF c(2)] loop_step(3)[OF c(3)]
        loop_step(4)[OF c(4)] loop_step(5)[OF c(5)] loop_step(6)[OF c(6)]
        str_to_access_code_loop.simps(1))
  have low: "canonical_lowercase s =
      [if c0 \<noteq> CHR ''-'' then CHR ''r'' else CHR ''-'', if c1 \<noteq> CHR ''-'' then CHR ''w'' else CHR ''-'',
       if c2 \<noteq> CHR ''-'' then CHR ''x'' else CHR ''-'', if c3 \<noteq> CHR ''-'' then CHR ''a'' else CHR ''-'',
       if c4 \<noteq> CHR ''-'' then CHR ''t'' else CHR ''-'', if c5 \<noteq> CHR ''-'' then CHR ''l'' else CHR ''-'']"
    unfolding s canonical_lowercase_def
    by (simp only: list.map to_lower_perm(1)[OF c(1)] to_lower_perm(2)[OF c(2)]
        to_lower_perm(3)[OF c(3)] to_lower_perm(4)[OF c(4)] to_lower_perm(5)[OF c(5)]
        to_lower_perm(6)[OF c(6)])
  show ?thesis
    unfolding code low access_code_to_str_bits
    by (simp only: bit_or_iff bit_perm_bit bit_0_eq) simp
qed

lemma loop_reject:
  "\<exists>c\<in>set s. c \<notin> perm_alphabet \<Longrightarrow> str_to_access_code_loop s code = - 1"
proof (induction s arbitrary: code)
  case Nil
  then show ?case by simp
next
  case (Cons a s)
  show ?case
  proof (cases "a \<in> perm_alphabet")
    case False
    then show ?thesis by (simp add: perm_alphabet_def)
  next
    case True
    with Cons.prems have "\<exists>c\<in>set s. c \<notin> perm_alphabet" by auto
    then have "\<And>code. str_to_access_code_loop s code = - 1" by (rule Cons.IH)
    then show ?thesis by simp
  qed
qed

text \<open>Claim C6.  For a well-formed 6-character permission string (the letters
  \<^verbatim>\<open>r w x a t l\<close> in their positions, in either case, or dashes), formatting the parsed
  code gives the canonical lowercase form of the string; and parsing a string that holds
  any character outside \<^verbatim>\<open>rwxatlRWXATL-\<close> returns the error \<^verbatim>\<open>-1\<close>.\<close>

theorem codec_format_parse:
  "(well_formed_perm s \<longrightarrow> access_code_to_str (str_to_access_code s) = canonical_lowercase s) \<and>
   ((\<exists>c\<in>set s. c \<notin> perm_alphabet) \<longrightarrow> str_to_access_code s = - 1)"
proof (intro conjI impI)
  assume "well_formed_perm s"
  then show "access_code_to_str (str_to_access_code s) = canonical_lowercase s"
    by (rule format_parse_wf)
next
  assume "\<exists>c\<in>set s. c \<notin> perm_alphabet"
  then show "str_to_access_code s = - 1"
    unfolding str_to_access_code_def by (rule loop_reject)
qed

theorem codec_format_parse_witness:
  "well_formed_perm ''rW-a-L'' \<and>
   access_code_to_str (str_to_access_code ''rW-a-L'') = ''rw-a-l'' \<and>
   canonical_lowercase ''rW-a-L'' = ''rw-a-l'' \<and>
   (\<exists>c\<in>set ''rq''. c \<notin> perm_alphabet) \<and> str_to_access_code ''rq'' = - 1"
  using codec_format_parse [of "''rW-a-L''"] codec_format_parse [of "''rq''"]
  by (simp add: well_formed_perm_def perm_alphabet_def canonical_lowercase_def to_lower_vals)

section \<open>CIPSO ingestion\<close>

text \<open>Claim C3.  The stores into \<^verbatim>\<open>cats\<close> do not stay within the 63 declared elements:
  on a line with a label, a level and 64 categories the 64th store is at index 63, one past
  the end of the array.\<close>

theorem cipso_store_out_of_bounds:
  "smack_cipso_add_from_file smack_cipso_new
     (''L 1'' @ concat (replicate 64 '' 0'') @ [CHR 0x0A]) = Inl (Cats_overflow 63)"
  by code_simp

text \<open>Claim C2.  A line with a label, a level and 245 categories does not yield a mapping
  of 240 categories: the loop runs towards \<^verbatim>\<open>CAT_MAX_COUNT\<close> stores, and the store at
  index 63 already leaves the array \<^verbatim>\<open>cats[CAT_MAX_VALUE]\<close>.\<close>

theorem cipso_245_categories_overflow:
  "smack_cipso_add_from_file smack_cipso_new
     (''L 1'' @ concat (replicate 245 '' 0'') @ [CHR 0x0A]) = Inl (Cats_overflow 63)"
  by code_simp

section \<open>Saving an engine\<close>

lemma get_label_Unconfined: "get_label ''Unconfined'' = (10, ''Unconfined'', 1550)"
  by code_simp

text \<open>Claim C10.  After \<^verbatim>\<open>add("Unconfined", "Unconfined", "rwxat")\<close> on a fresh engine,
  \<^verbatim>\<open>save\<close> (which always prints the long format) writes to its descriptor exactly the
  line \<^verbatim>\<open>Unconfined Unconfined rwxat-\<close> followed by a newline, and returns 0.\<close>

theorem save_Unconfined:
  "smack_accesses_save
     (snd (smack_accesses_add smack_accesses_new ''Unconfined'' ''Unconfined'' ''rwxat''))
     fd \<lparr>script = [], wlog = l\<rparr>
   = (0, \<lparr>script = [], wlog = l @ [(fd, ''Unconfined Unconfined rwxat-'' @ [CHR 0x0A])]\<rparr>)"
  by (simp add: get_label_Unconfined smack_accesses_save_def smack_accesses_add_def
      accesses_add_def label_add_def smack_accesses_new_def is_label_known_def MAX_LABELS_CNT_def
      SHORT_LABEL_LEN_def str_to_access_code_def append_rule_def ACCESS_TYPE_ALL_def ACC_LEN_def
      ACCESS_TYPE_R_def ACCESS_TYPE_W_def ACCESS_TYPE_X_def ACCESS_TYPE_A_def ACCESS_TYPE_T_def
      ACCESS_TYPE_L_def accesses_print_def print_rule_def access_code_to_str_def
      KERNEL_LONG_FORMAT_def sys_write_def write_loop.simps)

lemma get_label_loop_None:
  "get_label_loop i src dest h = None \<longleftrightarrow>
     (\<exists>c\<in>set (take (SMACK_LABEL_LEN + 1 - i) src). label_char_bad c)"
proof (induction i src dest h rule: get_label_loop.induct)
  case (1 i dest h)
  then show ?case by simp
next
  case (2 i c src dest h)
  show ?case
  proof (cases "i < SMACK_LABEL_LEN + 1")
    case True
    then have "SMACK_LABEL_LEN + 1 - i = Suc (SMACK_LABEL_LEN + 1 - (i + 1))" by simp
    with True 2 show ?thesis by (simp del: One_nat_def)
  next
    case False
    then show ?thesis by simp
  qed
qed

lemma get_label_loop_Some:
  "get_label_loop i src dest h = Some (j, d, h') \<Longrightarrow> i \<le> SMACK_LABEL_LEN + 1 \<Longrightarrow>
     j = min (i + length src) (SMACK_LABEL_LEN + 1) \<and> d = dest @ take (SMACK_LABEL_LEN + 1 - i) src"
proof (induction i src dest h rule: get_label_loop.induct)
  case (1 i dest h)
  then show ?case by simp
next
  case (2 i c src dest h)
  show ?case
  proof (cases "i < SMACK_LABEL_LEN + 1")
    case True
    then have e: "SMACK_LABEL_LEN + 1 - i = Suc (SMACK_LABEL_LEN + 1 - (i + 1))" by simp
    from True 2 show ?thesis by (auto simp: e simp del: One_nat_def split: if_splits)
  next
    case False
    with 2 show ?thesis by simp
  qed
qed

lemma valid_label_alt:
  "valid_label s \<longleftrightarrow> s \<noteq> [] \<and> hd s \<noteq> CHR ''-'' \<and> length s \<le> SMACK_LABEL_LEN \<and>
     (\<forall>c\<in>set s. \<not> label_char_bad c)"
proof -
  have c: "\<And>c. (32 < (of_char c :: nat) \<and> (of_char c :: nat) < 127 \<and>
            c \<noteq> CHR ''/'' \<and> c \<noteq> CHR 0x22 \<and> c \<noteq> CHR 0x5C \<and> c \<noteq> CHR 0x27) = (\<not> label_char_bad c)"
    unfolding label_char_bad_def by arith
  have l: "1 \<le> length s \<longleftrightarrow> s \<noteq> []" by (cases s) simp_all
  show ?thesis
    unfolding valid_label_def c l list_all_iff SMACK_LABEL_LEN_def by blast
qed

lemma get_label_valid:
  "fst (get_label s) = (if valid_label s then int (length s) else - 1)"
proof (cases "get_label_loop 0 s [] 5381")
  case None
  then have "\<exists>c\<in>set s. label_char_bad c"
    by (auto simp: get_label_loop_None dest: in_set_takeD)
  with None show ?thesis by (simp add: get_label_def valid_label_alt)
next
  case (Some r)
  obtain j d h' where r: "r = (j, d, h')" by (cases r)
  from Some r have j: "j = min (length s) (SMACK_LABEL_LEN + 1)"
    using get_label_loop_Some [of 0 s "[]" 5381 j d h'] by simp
  from Some have nb: "\<forall>c\<in>set (take (SMACK_LABEL_LEN + 1) s). \<not> label_char_bad c"
    using get_label_loop_None [of 0 s "[]" 5381] by simp
  show ?thesis
  proof (cases "length s \<le> SMACK_LABEL_LEN")
    case True
    with nb have "\<forall>c\<in>set s. \<not> label_char_bad c" by simp
    with True Some r j show ?thesis by (simp add: get_label_def valid_label_alt)
  next
    case False
    with Some r j show ?thesis by (simp add: get_label_def valid_label_alt)
  qed
qed

lemma get_label_dest: "valid_label s \<Longrightarrow> fst (snd (get_label s)) = s"
proof -
  assume v: "valid_label s"
  then have "fst (get_label s) \<noteq> - 1" by (simp add: get_label_valid)
  then obtain j d h' where S: "get_label_loop 0 s [] 5381 = Some (j, d, h')"
    by (cases "get_label_loop 0 s [] 5381") (auto simp: get_label_def split: if_splits)
  then have "d = take (SMACK_LABEL_LEN + 1) s"
    using get_label_loop_Some [of 0 s "[]" 5381 j d h'] by simp
  with v S show ?thesis by (simp add: get_label_def valid_label_alt)
qed

lemma chain_find_Some:
  "chain_find ls s ch = Some i \<Longrightarrow> i \<in> set ch \<and> label (ls ! i) = s"
  by (induction ch) (auto split: if_splits)

lemma chain_find_None:
  "chain_find ls s ch = None \<longleftrightarrow> (\<forall>i\<in>set ch. label (ls ! i) \<noteq> s)"
  by (induction ch) auto

lemma is_label_known_Some:
  assumes "engine_inv e" and "is_label_known e s h = Some i"
  shows "i < length (labels e) \<and> label (labels e ! i) = s"
  using assms chain_find_Some [of "labels e" s "label_hash e h" i]
  by (auto simp: engine_inv_def is_label_known_def)

lemma is_label_known_index:
  assumes inv: "engine_inv e" and i: "i < length (labels e)" and s: "label (labels e ! i) = s"
  shows "is_label_known e s (label_bucket s) = Some i"
proof (cases "is_label_known e s (label_bucket s)")
  case None
  then have "\<forall>j\<in>set (label_hash e (label_bucket s)). label (labels e ! j) \<noteq> s"
    by (simp add: is_label_known_def chain_find_None)
  moreover from inv i s have "i \<in> set (label_hash e (label_bucket s))"
    by (auto simp: engine_inv_def)
  ultimately show ?thesis using s by blast
next
  case (Some j)
  with inv have j: "j < length (labels e)" "label (labels e ! j) = s"
    using is_label_known_Some by blast+
  from inv have "distinct (map label (labels e))" by (simp add: engine_inv_def)
  with i j s have "j = i"
    by (metis distinct_conv_nth length_map nth_map)
  with Some show ?thesis by simp
qed

lemma is_label_known_None:
  assumes "engine_inv e" and "is_label_known e s (label_bucket s) = None"
  shows "s \<notin> label ` set (labels e)"
proof
  assume "s \<in> label ` set (labels e)"
  then obtain i where "i < length (labels e)" "label (labels e ! i) = s"
    by (auto simp: in_set_conv_nth)
  with assms(1) have "is_label_known e s (label_bucket s) = Some i"
    by (rule is_label_known_index)
  with assms(2) show False by simp
qed

lemma label_add_unfold:
  "label_add e s =
     (if length (labels e) = MAX_LABELS_CNT \<or> \<not> valid_label s then (None, e)
      else (case is_label_known e s (label_bucket s) of
              Some i \<Rightarrow> (Some i, e)
            | None \<Rightarrow>
                (Some (length (labels e)),
                 e\<lparr>labels := labels e @
                      [\<lparr>len = length s, lid = length (labels e), label = s, rules = []\<rparr>],
                   label_hash := (label_hash e)
                     (label_bucket s := label_hash e (label_bucket s) @ [length (labels e)])\<rparr>)))"
proof -
  obtain n d h where g: "get_label s = (n, d, h)" by (cases "get_label s")
  then have n: "n = (if valid_label s then int (length s) else - 1)"
    using get_label_valid [of s] by simp
  from g have h: "label_bucket s = h" by (simp add: label_bucket_def)
  show ?thesis
    unfolding label_add_def g h [symmetric] using n
    by (simp add: h split: option.splits)
qed

lemma engine_inv_new: "engine_inv smack_accesses_new"
  by (simp add: engine_inv_def smack_accesses_new_def)

lemma label_add_fail_iff:
  "fst (label_add e s) = None \<longleftrightarrow> \<not> valid_label s \<or> length (labels e) = MAX_LABELS_CNT"
  by (auto simp: label_add_unfold split: option.splits)

lemma label_add_fail_same: "fst (label_add e s) = None \<Longrightarrow> snd (label_add e s) = e"
  by (auto simp: label_add_unfold split: option.splits if_splits)

lemma label_add_known:
  assumes "engine_inv e" "length (labels e) \<noteq> MAX_LABELS_CNT"
    "i < length (labels e)" "label (labels e ! i) = s"
  shows "label_add e s = (Some i, e)"
proof -
  from assms have "valid_label s" by (auto simp: engine_inv_def)
  moreover from assms have "is_label_known e s (label_bucket s) = Some i"
    using is_label_known_index by blast
  ultimately show ?thesis using assms(2) by (simp add: label_add_unfold)
qed

lemma label_add_new:
  assumes "engine_inv e" "length (labels e) \<noteq> MAX_LABELS_CNT" "valid_label s"
    "s \<notin> label ` set (labels e)"
  shows "label_add e s =
     (Some (length (labels e)),
      e\<lparr>labels := labels e @ [\<lparr>len = length s, lid = length (labels e), label = s, rules = []\<rparr>],
        label_hash := (label_hash e)
          (label_bucket s := label_hash e (label_bucket s) @ [length (labels e)])\<rparr>)"
proof (cases "is_label_known e s (label_bucket s)")
  case None
  with assms show ?thesis by (simp add: label_add_unfold)
next
  case (Some i)
  with assms(1) have "i < length (labels e) \<and> label (labels e ! i) = s"
    by (rule is_label_known_Some)
  with assms(4) show ?thesis by (metis image_eqI nth_mem)
qed

lemma engine_inv_extend:
  assumes inv: "engine_inv e" and n: "length (labels e) \<noteq> MAX_LABELS_CNT" and v: "valid_label s"
    and new: "s \<notin> label ` set (labels e)"
  shows "engine_inv
     (e\<lparr>labels := labels e @ [\<lparr>len = length s, lid = length (labels e), label = s, rules = []\<rparr>],
        label_hash := (label_hash e)
          (label_bucket s := label_hash e (label_bucket s) @ [length (labels e)])\<rparr>)"
    (is "engine_inv ?e'")
proof -
  let ?ls = "labels e" and ?nl = "\<lparr>len = length s, lid = length (labels e), label = s, rules = []\<rparr>"
  have ls': "labels ?e' = ?ls @ [?nl]" by simp
  have hash': "\<And>h. set (label_hash ?e' h) =
      (if h = label_bucket s then insert (length ?ls) (set (label_hash e h)) else set (label_hash e h))"
    by simp
  from inv have old:
    "length ?ls \<le> MAX_LABELS_CNT" "distinct (map label ?ls)"
    "\<And>i. i < length ?ls \<Longrightarrow> lid (?ls ! i) = i \<and> valid_label (label (?ls ! i)) \<and>
          len (?ls ! i) = length (label (?ls ! i)) \<and>
          i \<in> set (label_hash e (label_bucket (label (?ls ! i)))) \<and>
          (\<forall>r\<in>set (rules (?ls ! i)). rule_ok e r)"
    "\<And>h i. i \<in> set (label_hash e h) \<Longrightarrow>
          i < length ?ls \<and> label_bucket (label (?ls ! i)) = h"
    unfolding engine_inv_def by blast+
  have 1: "length (labels ?e') \<le> MAX_LABELS_CNT" using old(1) n by simp
  have 2: "distinct (map label (labels ?e'))" using old(2) new by simp
  have rk: "\<And>r. rule_ok e r \<Longrightarrow> rule_ok ?e' r" by (simp add: rule_ok_def)
  have 3: "lid (labels ?e' ! i) = i \<and> valid_label (label (labels ?e' ! i)) \<and>
          len (labels ?e' ! i) = length (label (labels ?e' ! i)) \<and>
          i \<in> set (label_hash ?e' (label_bucket (label (labels ?e' ! i)))) \<and>
          (\<forall>r\<in>set (rules (labels ?e' ! i)). rule_ok ?e' r)"
    if "i < length (labels ?e')" for i
  proof (cases "i < length ?ls")
    case True
    then have nth: "labels ?e' ! i = ?ls ! i" by (simp add: nth_append)
    from old(3) [OF True] rk show ?thesis unfolding nth hash' by auto
  next
    case False
    with that have i: "i = length ?ls" by simp
    then have nth: "labels ?e' ! i = ?nl" by simp
    show ?thesis unfolding nth hash' using v i by simp
  qed
  have 4: "i < length (labels ?e') \<and> label_bucket (label (labels ?e' ! i)) = h"
    if "i \<in> set (label_hash ?e' h)" for h i
  proof (cases "i \<in> set (label_hash e h)")
    case True
    from old(4) [OF True] show ?thesis by (simp add: nth_append)
  next
    case False
    with that have "h = label_bucket s \<and> i = length ?ls"
      unfolding hash' by (auto split: if_splits)
    then show ?thesis by simp
  qed
  show ?thesis unfolding engine_inv_def using 1 2 3 4 by blast
qed

lemma label_add_inv:
  assumes "engine_inv e"
  shows "engine_inv (snd (label_add e s))"
proof (cases "length (labels e) = MAX_LABELS_CNT \<or> \<not> valid_label s")
  case True
  with assms show ?thesis by (auto simp: label_add_unfold)
next
  case False
  show ?thesis
  proof (cases "s \<in> label ` set (labels e)")
    case True
    then obtain i where "i < length (labels e)" "label (labels e ! i) = s"
      by (auto simp: in_set_conv_nth)
    with assms False have "label_add e s = (Some i, e)" by (simp add: label_add_known)
    with assms show ?thesis by simp
  next
    case new: False
    with assms False show ?thesis
      by (simp add: label_add_new engine_inv_extend)
  qed
qed

lemma label_add_Some:
  assumes inv: "engine_inv e" and add: "label_add e s = (Some i, e1)"
  shows "i < length (labels e1) \<and> label (labels e1 ! i) = s \<and> valid_label s \<and>
         prefix (labels e) (labels e1) \<and> has_long e1 = has_long e \<and> engine_inv e1 \<and>
         length (labels e) \<noteq> MAX_LABELS_CNT"
proof -
  from add have ok: "length (labels e) \<noteq> MAX_LABELS_CNT" "valid_label s"
    by (auto simp: label_add_unfold split: if_splits)
  from inv have inv1: "engine_inv e1" using label_add_inv [of e s] add by simp
  show ?thesis
  proof (cases "s \<in> label ` set (labels e)")
    case True
    then obtain k where k: "k < length (labels e)" "label (labels e ! k) = s"
      by (auto simp: in_set_conv_nth)
    with inv ok have "label_add e s = (Some k, e)" by (simp add: label_add_known)
    with add k ok inv show ?thesis by auto
  next
    case False
    with inv ok add show ?thesis using inv1 by (auto simp: label_add_new)
  qed
qed

text \<open>Claim C9.  In an engine that satisfies the representation invariant (every engine
  the library builds does, lemma \<open>reachable_engine_inv\<close>), interning fails exactly when the
  label is not a valid label or the engine already holds 65536 labels; and when a string
  \<open>s\<close> has been interned with identifier \<open>i\<close>, a later successful interning of a string
  \<open>t\<close>, in that engine or in one grown from it, returns \<open>i\<close> if and only if \<open>t\<close> is \<open>s\<close>:
  the same string gets the same identifier, distinct strings get distinct identifiers.\<close>

theorem label_add_interning:
  assumes "engine_inv e"
  shows "(fst (label_add e s) = None \<longleftrightarrow> \<not> valid_label s \<or> length (labels e) = MAX_LABELS_CNT) \<and>
    (\<forall>i e1 e2 t j e3.
        label_add e s = (Some i, e1) \<and> engine_inv e2 \<and>
        prefix (map label (labels e1)) (map label (labels e2)) \<and>
        label_add e2 t = (Some j, e3) \<longrightarrow> (j = i \<longleftrightarrow> t = s))"
proof (intro conjI allI impI)
  show "fst (label_add e s) = None \<longleftrightarrow> \<not> valid_label s \<or> length (labels e) = MAX_LABELS_CNT"
    by (rule label_add_fail_iff)
next
  fix i e1 e2 t j e3
  assume h: "label_add e s = (Some i, e1) \<and> engine_inv e2 \<and>
        prefix (map label (labels e1)) (map label (labels e2)) \<and>
        label_add e2 t = (Some j, e3)"
  from h assms have 1: "i < length (labels e1)" "label (labels e1 ! i) = s"
    using label_add_Some by blast+
  from h have p: "prefix (map label (labels e1)) (map label (labels e2))" by simp
  then obtain zs where zs: "map label (labels e2) = map label (labels e1) @ zs"
    by (auto simp: prefix_def)
  have i2: "i < length (labels e2)"
    using 1(1) arg_cong [OF zs, of length] by simp
  have "map label (labels e2) ! i = map label (labels e1) ! i"
    using 1(1) zs by (simp add: nth_append)
  with 1 i2 have l2: "label (labels e2 ! i) = s" by simp
  from h have 3: "j < length (labels e3)" "label (labels e3 ! j) = t"
    "prefix (labels e2) (labels e3)" "length (labels e2) \<noteq> MAX_LABELS_CNT"
    using label_add_Some [of e2 t j e3] by blast+
  show "j = i \<longleftrightarrow> t = s"
  proof
    assume "j = i"
    from 3(3) obtain ys where "labels e3 = labels e2 @ ys" by (auto simp: prefix_def)
    with i2 have "labels e3 ! i = labels e2 ! i" by (simp add: nth_append)
    with l2 3(2) \<open>j = i\<close> show "t = s" by simp
  next
    assume "t = s"
    from h have "engine_inv e2" by simp
    then have "label_add e2 s = (Some i, e2)" using 3(4) i2 l2 by (rule label_add_known)
    with h \<open>t = s\<close> show "j = i" by simp
  qed
qed

lemma get_label_a: "get_label ''a'' = (1, ''a'', 1542)"
  by code_simp

lemma get_label_b: "get_label ''b'' = (1, ''b'', 1543)"
  by code_simp

theorem label_add_interning_witness:
  "engine_inv smack_accesses_new \<and> valid_label ''a'' \<and> \<not> valid_label ''-a'' \<and>
   fst (label_add smack_accesses_new ''-a'') = None \<and>
   fst (label_add smack_accesses_new ''a'') = Some 0 \<and>
   fst (label_add (snd (label_add smack_accesses_new ''a'')) ''a'') = Some 0 \<and>
   fst (label_add (snd (label_add smack_accesses_new ''a'')) ''b'') = Some 1"
proof -
  let ?e1 = "\<lparr>has_long = False, labels = [\<lparr>len = 1, lid = 0, label = ''a'', rules = []\<rparr>],
              label_hash = (\<lambda>_. [])(1542 := [0])\<rparr>"
  have va: "valid_label ''a''" and nv: "\<not> valid_label ''-a''"
    by (simp_all add: valid_label_def)
  have a: "label_add smack_accesses_new ''a'' = (Some 0, ?e1)"
    by (simp add: label_add_def get_label_a smack_accesses_new_def is_label_known_def
        MAX_LABELS_CNT_def)
  have aa: "label_add ?e1 ''a'' = (Some 0, ?e1)"
    by (simp add: label_add_def get_label_a is_label_known_def MAX_LABELS_CNT_def)
  have ab: "fst (label_add ?e1 ''b'') = Some 1"
    by (simp add: label_add_def get_label_b is_label_known_def MAX_LABELS_CNT_def)
  have inv1: "engine_inv ?e1"
    using label_add_inv [OF engine_inv_new, of "''a''"] by (simp add: a)
  have f: "fst (label_add smack_accesses_new ''-a'') = None"
    using label_add_interning [OF engine_inv_new, of "''-a''", THEN conjunct1] nv by simp
  have "(0::nat) = 0 \<longleftrightarrow> ''a'' = ''a''"
    using label_add_interning [OF engine_inv_new, of "''a''", THEN conjunct2, rule_format,
        of 0 ?e1 ?e1 "''a''" 0 ?e1] a aa inv1 by simp
  then show ?thesis using engine_inv_new va nv f a aa ab by simp
qed

lemma ACCESS_TYPE_ALL_63: "ACCESS_TYPE_ALL = 63"
  by (simp add: ACCESS_TYPE_ALL_def ACC_LEN_def)

lemma code_ok_enum: "code_ok c \<Longrightarrow> c \<in> set [0..63]"
  by (simp add: code_ok_def)

lemma str_to_access_code_loop_range:
  "code_ok code \<Longrightarrow>
     str_to_access_code_loop s code = - 1 \<or> code_ok (str_to_access_code_loop s code)"
proof (induction s arbitrary: code)
  case Nil
  then show ?case by simp
next
  case (Cons c s)
  have b: "\<And>k. k \<in> {1, 2, 4, 8, 16, 32} \<Longrightarrow> code_ok (code OR k)"
    using Cons.prems OR_upper [of code 6] by (auto simp: code_ok_def)
  show ?case using Cons.IH b Cons.prems
    by (simp add: ACCESS_TYPE_R_def ACCESS_TYPE_W_def ACCESS_TYPE_X_def ACCESS_TYPE_A_def
        ACCESS_TYPE_T_def ACCESS_TYPE_L_def)
qed

lemma str_to_access_code_range:
  "str_to_access_code s = - 1 \<or> code_ok (str_to_access_code s)"
  unfolding str_to_access_code_def by (rule str_to_access_code_loop_range) (simp add: code_ok_def)

lemma complement_all: "\<forall>a\<in>set [0..63].
    code_ok (ACCESS_TYPE_ALL AND NOT a) \<and> a OR (ACCESS_TYPE_ALL AND NOT a) = ACCESS_TYPE_ALL \<and>
    a AND (ACCESS_TYPE_ALL AND NOT a) = 0 \<and> ACCESS_TYPE_ALL AND NOT a = ACCESS_TYPE_ALL - a"
  by code_simp

lemma complement_code:
  assumes "code_ok a"
  shows "code_ok (ACCESS_TYPE_ALL AND NOT a)" "a OR (ACCESS_TYPE_ALL AND NOT a) = ACCESS_TYPE_ALL"
    "a AND (ACCESS_TYPE_ALL AND NOT a) = 0" "ACCESS_TYPE_ALL AND NOT a = ACCESS_TYPE_ALL - a"
  using complement_all code_ok_enum [OF assms] by blast+

lemma parse_format_all: "\<forall>a\<in>set [0..63]. str_to_access_code (access_code_to_str a) = a"
  by code_simp

lemma parse_format: "code_ok a \<Longrightarrow> str_to_access_code (access_code_to_str a) = a"
  using parse_format_all code_ok_enum by blast

lemma accesses_add_cases:
  "accesses_add e s ob a d =
     (case label_add e s of
        (None, h1) \<Rightarrow> (- 1, h1)
      | (Some sid, h1) \<Rightarrow>
          (case label_add h1 ob of
             (None, h2) \<Rightarrow> (- 1, h2)
           | (Some oid, h2) \<Rightarrow>
               if str_to_access_code a = - 1 \<or>
                  (case d of Some ds \<Rightarrow> str_to_access_code ds = - 1 | None \<Rightarrow> False)
               then (- 1, mark_long h2 sid oid)
               else (0, append_rule (mark_long h2 sid oid) sid (new_rule a d oid))))"
  by (simp add: accesses_add_def mark_long_def new_rule_def Let_def
      split: prod.splits option.splits)

lemma mark_long_simps [simp]:
  "labels (mark_long h sid oid) = labels h" "label_hash (mark_long h sid oid) = label_hash h"
  by (simp_all add: mark_long_def)

lemma engine_inv_mark_long: "engine_inv (mark_long h sid oid) = engine_inv h"
  by (simp add: engine_inv_def rule_ok_def)

lemma map_update_same:
  "(\<And>x. f (g x) = f x) \<Longrightarrow> map f (xs[i := g (xs ! i)]) = map f xs"
  by (induction xs arbitrary: i) (auto split: nat.splits)

lemma append_rule_simps [simp]:
  "label_hash (append_rule h sid r) = label_hash h"
  "has_long (append_rule h sid r) = has_long h"
  "length (labels (append_rule h sid r)) = length (labels h)"
  "map label (labels (append_rule h sid r)) = map label (labels h)"
  "map len (labels (append_rule h sid r)) = map len (labels h)"
  "map lid (labels (append_rule h sid r)) = map lid (labels h)"
proof -
  let ?g = "\<lambda>l. l\<lparr>rules := rules l @ [r]\<rparr>"
  have l: "labels (append_rule h sid r) = (labels h)[sid := ?g (labels h ! sid)]"
    by (simp add: append_rule_def)
  show "label_hash (append_rule h sid r) = label_hash h"
    "has_long (append_rule h sid r) = has_long h"
    "length (labels (append_rule h sid r)) = length (labels h)"
    by (simp_all add: append_rule_def)
  show "map label (labels (append_rule h sid r)) = map label (labels h)"
    unfolding l by (rule map_update_same) simp
  show "map len (labels (append_rule h sid r)) = map len (labels h)"
    unfolding l by (rule map_update_same) simp
  show "map lid (labels (append_rule h sid r)) = map lid (labels h)"
    unfolding l by (rule map_update_same) simp
qed

lemma append_rule_nth:
  "i < length (labels h) \<Longrightarrow>
     label (labels (append_rule h sid r) ! i) = label (labels h ! i) \<and>
     len (labels (append_rule h sid r) ! i) = len (labels h ! i) \<and>
     lid (labels (append_rule h sid r) ! i) = lid (labels h ! i) \<and>
     rules (labels (append_rule h sid r) ! i) =
       (if i = sid then rules (labels h ! i) @ [r] else rules (labels h ! i))"
  by (simp add: append_rule_def nth_list_update)

lemma engine_inv_append_rule:
  assumes inv: "engine_inv h" and r: "rule_ok h r"
  shows "engine_inv (append_rule h sid r)" (is "engine_inv ?h'")
proof -
  from inv have old:
    "length (labels h) \<le> MAX_LABELS_CNT" "distinct (map label (labels h))"
    "\<And>i. i < length (labels h) \<Longrightarrow> lid (labels h ! i) = i \<and> valid_label (label (labels h ! i)) \<and>
          len (labels h ! i) = length (label (labels h ! i)) \<and>
          i \<in> set (label_hash h (label_bucket (label (labels h ! i)))) \<and>
          (\<forall>r\<in>set (rules (labels h ! i)). rule_ok h r)"
    "\<And>k i. i \<in> set (label_hash h k) \<Longrightarrow>
          i < length (labels h) \<and> label_bucket (label (labels h ! i)) = k"
    unfolding engine_inv_def by blast+
  have rk: "\<And>x. rule_ok ?h' x = rule_ok h x" by (simp add: rule_ok_def)
  have 3: "lid (labels ?h' ! i) = i \<and> valid_label (label (labels ?h' ! i)) \<and>
          len (labels ?h' ! i) = length (label (labels ?h' ! i)) \<and>
          i \<in> set (label_hash ?h' (label_bucket (label (labels ?h' ! i)))) \<and>
          (\<forall>x\<in>set (rules (labels ?h' ! i)). rule_ok ?h' x)"
    if "i < length (labels ?h')" for i
  proof -
    from that have i: "i < length (labels h)" by simp
    show ?thesis using old(3) [OF i] r unfolding rk
      by (auto simp: append_rule_nth [OF i])
  qed
  have 4: "i < length (labels ?h') \<and> label_bucket (label (labels ?h' ! i)) = k"
    if "i \<in> set (label_hash ?h' k)" for k i
  proof -
    from that have "i \<in> set (label_hash h k)" by simp
    from old(4) [OF this] show ?thesis by (simp add: append_rule_nth)
  qed
  show ?thesis unfolding engine_inv_def using old(1,2) 3 4 by simp
qed

lemma rule_ok_new_rule:
  assumes "oid < length (labels h)" "str_to_access_code a \<noteq> - 1"
    "case d of Some ds \<Rightarrow> str_to_access_code ds \<noteq> - 1 | None \<Rightarrow> True"
  shows "rule_ok h (new_rule a d oid)"
proof -
  from assms(2) have a: "code_ok (str_to_access_code a)"
    using str_to_access_code_range [of a] by simp
  have "code_ok (deny_code (new_rule a d oid))"
  proof (cases d)
    case None
    with a show ?thesis by (simp add: new_rule_def complement_code(1))
  next
    case (Some ds)
    with assms(3) show ?thesis using str_to_access_code_range [of ds] by (simp add: new_rule_def)
  qed
  with a assms(1) show ?thesis by (simp add: rule_ok_def new_rule_def)
qed

lemma accesses_add_inv:
  assumes inv: "engine_inv e"
  shows "engine_inv (snd (accesses_add e s ob a d))"
proof (cases "label_add e s")
  case (Pair r1 h1)
  from inv have inv1: "engine_inv h1" using label_add_inv [of e s] Pair by simp
  show ?thesis
  proof (cases r1)
    case None
    with Pair inv1 show ?thesis by (simp add: accesses_add_cases)
  next
    case (Some sid)
    show ?thesis
    proof (cases "label_add h1 ob")
      case P2: (Pair r2 h2)
      from inv1 have inv2: "engine_inv h2" using label_add_inv [of h1 ob] P2 by simp
      show ?thesis
      proof (cases r2)
        case None
        with Pair Some P2 inv2 show ?thesis by (simp add: accesses_add_cases)
      next
        case S2: (Some oid)
        from inv1 P2 S2 have oid: "oid < length (labels h2)" using label_add_Some by blast
        have m: "engine_inv (mark_long h2 sid oid)" using inv2 by (simp add: engine_inv_mark_long)
        show ?thesis
        proof (cases "str_to_access_code a = - 1 \<or>
                  (case d of Some ds \<Rightarrow> str_to_access_code ds = - 1 | None \<Rightarrow> False)")
          case True
          with Pair Some P2 S2 m show ?thesis by (simp add: accesses_add_cases)
        next
          case False
          then have "rule_ok (mark_long h2 sid oid) (new_rule a d oid)"
            using oid by (intro rule_ok_new_rule) (auto split: option.splits)
          with m have "engine_inv (append_rule (mark_long h2 sid oid) sid (new_rule a d oid))"
            by (rule engine_inv_append_rule)
          with Pair Some P2 S2 False show ?thesis by (simp add: accesses_add_cases)
        qed
      qed
    qed
  qed
qed

lemma add_line_inv: "engine_inv e \<Longrightarrow> engine_inv (snd (add_line e buf))"
  by (auto simp: add_line_def smack_accesses_add_def smack_accesses_add_modify_def accesses_add_inv
      split: prod.splits option.splits)

lemma add_from_file_loop_inv:
  "engine_inv e \<Longrightarrow> engine_inv (snd (add_from_file_loop e inp))"
proof (induction e inp rule: add_from_file_loop.induct)
  case (1 accesses inp)
  show ?case
  proof (cases "fgets (LOAD_LEN + 1) inp")
    case None
    with 1 show ?thesis by (simp add: add_from_file_loop.simps)
  next
    case (Some cr)
    obtain chunk rest where cr: "cr = (chunk, rest)" by (cases cr)
    show ?thesis
    proof (cases "c_str chunk = [CHR 0x0A]")
      case True
      with 1 Some cr show ?thesis by (simp add: add_from_file_loop.simps [of accesses inp])
    next
      case False
      obtain ret e' where l: "add_line accesses (c_str chunk) = (ret, e')"
        by (cases "add_line accesses (c_str chunk)")
      then have e': "engine_inv e'" using add_line_inv [OF "1.prems", of "c_str chunk"] by simp
      show ?thesis
      proof (cases "ret = 0")
        case True
        with 1(2) [OF Some cr [symmetric] False l [symmetric]] e' Some cr False l
        show ?thesis by (simp add: add_from_file_loop.simps [of accesses inp])
      next
        case False
        with e' Some cr l \<open>c_str chunk \<noteq> [CHR 0x0A]\<close> show ?thesis
          by (simp add: add_from_file_loop.simps [of accesses inp])
      qed
    qed
  qed
qed

lemma reachable_engine_inv: "reachable e \<Longrightarrow> engine_inv e"
proof (induction rule: reachable.induct)
  case new
  show ?case by (rule engine_inv_new)
next
  case (add e subject object access_type)
  then show ?case by (simp add: smack_accesses_add_def accesses_add_inv)
next
  case (add_modify e subject object allow_access_type deny_access_type)
  then show ?case by (simp add: smack_accesses_add_modify_def accesses_add_inv)
next
  case (add_from_file e inp)
  then show ?case by (simp add: smack_accesses_add_from_file_def add_from_file_loop_inv)
qed

lemma prefix_nth: "prefix xs ys \<Longrightarrow> i < length xs \<Longrightarrow> ys ! i = xs ! i \<and> i < length ys"
  by (auto simp: prefix_def nth_append)

lemma accesses_add_ok:
  assumes inv: "engine_inv e" and ok: "accesses_add e s ob a d = (0, e')"
  shows "\<exists>sid oid h1 h2.
     label_add e s = (Some sid, h1) \<and> label_add h1 ob = (Some oid, h2) \<and>
     e' = append_rule (mark_long h2 sid oid) sid (new_rule a d oid) \<and>
     str_to_access_code a \<noteq> - 1 \<and>
     (case d of Some ds \<Rightarrow> str_to_access_code ds \<noteq> - 1 | None \<Rightarrow> True) \<and>
     engine_inv h2 \<and> prefix (labels e) (labels h2) \<and>
     sid < length (labels h2) \<and> label (labels h2 ! sid) = s \<and>
     oid < length (labels h2) \<and> label (labels h2 ! oid) = ob"
proof -
  from ok obtain sid h1 where 1: "label_add e s = (Some sid, h1)"
    by (cases "label_add e s") (auto simp: accesses_add_cases split: option.splits)
  from ok 1 obtain oid h2 where 2: "label_add h1 ob = (Some oid, h2)"
    by (cases "label_add h1 ob") (auto simp: accesses_add_cases split: option.splits)
  from ok 1 2 have 3: "e' = append_rule (mark_long h2 sid oid) sid (new_rule a d oid)"
    "str_to_access_code a \<noteq> - 1"
    "case d of Some ds \<Rightarrow> str_to_access_code ds \<noteq> - 1 | None \<Rightarrow> True"
    by (auto simp: accesses_add_cases split: option.splits if_splits)
  from inv 1 have s1: "sid < length (labels h1)" "label (labels h1 ! sid) = s"
    "prefix (labels e) (labels h1)" "engine_inv h1"
    using label_add_Some by blast+
  from s1(4) 2 have s2: "oid < length (labels h2)" "label (labels h2 ! oid) = ob"
    "prefix (labels h1) (labels h2)" "engine_inv h2"
    using label_add_Some by blast+
  from prefix_nth [OF s2(3) s1(1)] s1(2)
  have "sid < length (labels h2)" "label (labels h2 ! sid) = s" by simp_all
  moreover from s1(3) s2(3) have "prefix (labels e) (labels h2)" by (rule prefix_order.trans)
  ultimately show ?thesis using 1 2 3 s2 by blast
qed

lemma has_long_inv_new: "has_long_inv smack_accesses_new"
  by (simp add: has_long_inv_def smack_accesses_new_def)

lemma has_long_inv_extend:
  assumes inv: "engine_inv e" and hl: "has_long_inv e"
  shows "has_long_inv
     (e\<lparr>labels := labels e @ [\<lparr>len = n, lid = m, label = s, rules = []\<rparr>],
        label_hash := f\<rparr>)" (is "has_long_inv ?e'")
proof -
  have same: "labels ?e' ! k = labels e ! k" if "k < length (labels e)" for k
    using that by (simp add: nth_append)
  have 1: "\<exists>k<length (labels ?e'). SHORT_LABEL_LEN < len (labels ?e' ! k)" if "has_long ?e'"
  proof -
    from that hl obtain k where k: "k < length (labels e)" "SHORT_LABEL_LEN < len (labels e ! k)"
      by (auto simp: has_long_inv_def)
    show ?thesis using k same [OF k(1)] by (intro exI [of _ k]) simp
  qed
  have 2: "has_long ?e'"
    if k: "k < length (labels ?e')" and r: "r \<in> set (rules (labels ?e' ! k))" and
      long: "SHORT_LABEL_LEN < len (labels ?e' ! k) \<or> SHORT_LABEL_LEN < len (labels ?e' ! object_id r)"
    for k r
  proof (cases "k < length (labels e)")
    case True
    with r same have r': "r \<in> set (rules (labels e ! k))" by simp
    with inv True have o: "object_id r < length (labels e)"
      by (auto simp: engine_inv_def rule_ok_def)
    from long have "SHORT_LABEL_LEN < len (labels e ! k) \<or>
        SHORT_LABEL_LEN < len (labels e ! object_id r)"
      unfolding same [OF True] same [OF o] .
    with hl True r' have "has_long e" unfolding has_long_inv_def by blast
    then show ?thesis by simp
  next
    case False
    with k have "rules (labels ?e' ! k) = []" by (simp add: nth_append less_Suc_eq)
    with r show ?thesis by simp
  qed
  show ?thesis unfolding has_long_inv_def using 1 2 by blast
qed

lemma has_long_inv_label_add:
  assumes inv: "engine_inv e" and hl: "has_long_inv e"
  shows "has_long_inv (snd (label_add e s))"
proof (cases "length (labels e) = MAX_LABELS_CNT \<or> \<not> valid_label s")
  case True
  with hl show ?thesis by (auto simp: label_add_unfold)
next
  case False
  show ?thesis
  proof (cases "s \<in> label ` set (labels e)")
    case True
    then obtain i where "i < length (labels e)" "label (labels e ! i) = s"
      by (auto simp: in_set_conv_nth)
    with inv False have "label_add e s = (Some i, e)" by (simp add: label_add_known)
    with hl show ?thesis by simp
  next
    case new: False
    with inv hl False show ?thesis
      by (simp add: label_add_new has_long_inv_extend)
  qed
qed

lemma has_long_inv_append_rule:
  assumes inv: "engine_inv h" and hl: "has_long_inv h"
    and sid: "sid < length (labels h)" and oid: "object_id r = oid" "oid < length (labels h)"
  shows "has_long_inv (append_rule (mark_long h sid oid) sid r)" (is "has_long_inv ?h'")
proof -
  let ?m = "mark_long h sid oid"
  have hm: "has_long ?m \<longleftrightarrow> has_long h \<or> SHORT_LABEL_LEN < len (labels h ! sid) \<or>
      SHORT_LABEL_LEN < len (labels h ! oid)"
    by (auto simp: mark_long_def)
  have n: "\<And>k. k < length (labels h) \<Longrightarrow> len (labels ?h' ! k) = len (labels h ! k) \<and>
     rules (labels ?h' ! k) = (if k = sid then rules (labels h ! k) @ [r] else rules (labels h ! k))"
    using append_rule_nth [of _ ?m sid r] by simp
  have 1: "\<exists>k<length (labels ?h'). SHORT_LABEL_LEN < len (labels ?h' ! k)" if "has_long ?h'"
  proof -
    from that have "has_long ?m" by simp
    with hm hl sid oid obtain k where "k < length (labels h)" "SHORT_LABEL_LEN < len (labels h ! k)"
      unfolding has_long_inv_def by blast
    with n show ?thesis by (intro exI [of _ k]) simp
  qed
  have 2: "has_long ?h'"
    if k: "k < length (labels ?h')" and x: "x \<in> set (rules (labels ?h' ! k))" and
      long: "SHORT_LABEL_LEN < len (labels ?h' ! k) \<or> SHORT_LABEL_LEN < len (labels ?h' ! object_id x)"
    for k x
  proof -
    from k have k': "k < length (labels h)" by simp
    show ?thesis
    proof (cases "x \<in> set (rules (labels h ! k))")
      case True
      with inv k' have "object_id x < length (labels h)"
        by (auto simp: engine_inv_def rule_ok_def)
      with long n k' have "SHORT_LABEL_LEN < len (labels h ! k) \<or>
        SHORT_LABEL_LEN < len (labels h ! object_id x)" by simp
      with hl k' True have "has_long h" unfolding has_long_inv_def by blast
      with hm show ?thesis by simp
    next
      case False
      with x n [OF k'] have "k = sid \<and> x = r" by (auto split: if_splits)
      with long n sid oid hm show ?thesis by auto
    qed
  qed
  show ?thesis unfolding has_long_inv_def using 1 2 by blast
qed

lemma has_long_inv_mark_long:
  assumes hl: "has_long_inv h" and sid: "sid < length (labels h)" and oid: "oid < length (labels h)"
  shows "has_long_inv (mark_long h sid oid)"
  using assms unfolding has_long_inv_def mark_long_def by auto

lemma has_long_inv_accesses_add:
  assumes inv: "engine_inv e" and hl: "has_long_inv e"
  shows "has_long_inv (snd (accesses_add e s ob a d))"
proof (cases "label_add e s")
  case (Pair r1 h1)
  from inv have inv1: "engine_inv h1" using label_add_inv [of e s] Pair by simp
  from inv hl have hl1: "has_long_inv h1" using has_long_inv_label_add [of e s] Pair by simp
  show ?thesis
  proof (cases r1)
    case None
    with Pair hl1 show ?thesis by (simp add: accesses_add_cases)
  next
    case (Some sid)
    from inv Pair Some have sid1: "sid < length (labels h1)" using label_add_Some by blast
    show ?thesis
    proof (cases "label_add h1 ob")
      case P2: (Pair r2 h2)
      from inv1 have inv2: "engine_inv h2" using label_add_inv [of h1 ob] P2 by simp
      from inv1 hl1 have hl2: "has_long_inv h2" using has_long_inv_label_add [of h1 ob] P2 by simp
      show ?thesis
      proof (cases r2)
        case None
        with Pair Some P2 hl2 show ?thesis by (simp add: accesses_add_cases)
      next
        case S2: (Some oid)
        from inv1 P2 S2 have oid: "oid < length (labels h2)" "prefix (labels h1) (labels h2)"
          using label_add_Some by blast+
        from prefix_nth [OF oid(2) sid1] have sid: "sid < length (labels h2)" by simp
        have "object_id (new_rule a d oid) = oid" by (simp add: new_rule_def)
        with inv2 hl2 sid oid(1)
        have "has_long_inv (append_rule (mark_long h2 sid oid) sid (new_rule a d oid))"
          by (intro has_long_inv_append_rule)
        moreover from hl2 sid oid(1) have "has_long_inv (mark_long h2 sid oid)"
          by (rule has_long_inv_mark_long)
        ultimately show ?thesis using Pair Some P2 S2 by (simp add: accesses_add_cases)
      qed
    qed
  qed
qed

lemma add_line_preserves:
  assumes "\<And>e s ob a d. P e \<Longrightarrow> P (snd (accesses_add e s ob a d))" and "P e"
  shows "P (snd (add_line e buf))"
  using assms
  by (auto simp: add_line_def smack_accesses_add_def smack_accesses_add_modify_def
      split: prod.splits option.splits)

lemma add_from_file_loop_preserves:
  assumes step: "\<And>e s ob a d. P e \<Longrightarrow> P (snd (accesses_add e s ob a d))"
  shows "P e \<Longrightarrow> P (snd (add_from_file_loop e inp))"
proof (induction e inp rule: add_from_file_loop.induct)
  case (1 accesses inp)
  show ?case
  proof (cases "fgets (LOAD_LEN + 1) inp")
    case None
    with 1 show ?thesis by (simp add: add_from_file_loop.simps)
  next
    case (Some cr)
    obtain chunk rest where cr: "cr = (chunk, rest)" by (cases cr)
    show ?thesis
    proof (cases "c_str chunk = [CHR 0x0A]")
      case True
      with 1 Some cr show ?thesis by (simp add: add_from_file_loop.simps [of accesses inp])
    next
      case False
      obtain ret e' where l: "add_line accesses (c_str chunk) = (ret, e')"
        by (cases "add_line accesses (c_str chunk)")
      then have e': "P e'"
        using add_line_preserves [of P, OF step "1.prems", of "c_str chunk"] by simp
      show ?thesis
      proof (cases "ret = 0")
        case True
        with 1(2) [OF Some cr [symmetric] False l [symmetric]] e' Some cr False l
        show ?thesis by (simp add: add_from_file_loop.simps [of accesses inp])
      next
        case False
        with e' Some cr l \<open>c_str chunk \<noteq> [CHR 0x0A]\<close> show ?thesis
          by (simp add: add_from_file_loop.simps [of accesses inp])
      qed
    qed
  qed
qed

lemma reachable_induct_add:
  assumes "reachable e" and "P smack_accesses_new"
    and step: "\<And>e s ob a d. P e \<Longrightarrow> P (snd (accesses_add e s ob a d))"
  shows "P e"
  using assms(1)
proof (induction rule: reachable.induct)
  case new
  show ?case by (rule assms(2))
next
  case (add e subject object access_type)
  show ?case unfolding smack_accesses_add_def by (rule step) (rule add.IH)
next
  case (add_modify e subject object allow_access_type deny_access_type)
  show ?case unfolding smack_accesses_add_modify_def by (rule step) (rule add_modify.IH)
next
  case (add_from_file e inp)
  have "P (snd (add_from_file_loop e inp))"
    using step add_from_file.IH by (rule add_from_file_loop_preserves)
  then show ?case unfolding smack_accesses_add_from_file_def .
qed

lemma reachable_has_long_inv:
  assumes "reachable e"
  shows "has_long_inv e"
proof -
  have "engine_inv e \<and> has_long_inv e"
    using assms
    by (rule reachable_induct_add)
      (simp_all add: engine_inv_new has_long_inv_new accesses_add_inv has_long_inv_accesses_add)
  then show ?thesis by simp
qed

lemma accesses_apply_short_long:
  assumes "has_long e" and "openat fs ''load2'' = Enoent"
  shows "accesses_apply fs e clear w = (- 1, w)"
  using assms
  by (simp add: accesses_apply_def open_smackfs_file_def accesses_print_def
      split: open_result.splits)

lemma get_label_a24:
  "get_label ''aaaaaaaaaaaaaaaaaaaaaaaa'' =
     (24, ''aaaaaaaaaaaaaaaaaaaaaaaa'', snd (snd (get_label ''aaaaaaaaaaaaaaaaaaaaaaaa'')))"
  by code_simp

lemma get_label_slash: "fst (get_label ''/'') = - 1"
  by code_simp

lemma failed_add_long:
  "smack_accesses_add smack_accesses_new ''aaaaaaaaaaaaaaaaaaaaaaaa'' ''/'' ''r'' =
     (- 1, \<lparr>has_long = False,
            labels = [\<lparr>len = 24, lid = 0, label = ''aaaaaaaaaaaaaaaaaaaaaaaa'', rules = []\<rparr>],
            label_hash = (\<lambda>_. [])(label_bucket ''aaaaaaaaaaaaaaaaaaaaaaaa'' := [0])\<rparr>)"
proof -
  obtain n d h where g: "get_label ''/'' = (n, d, h)" by (cases "get_label ''/''")
  with get_label_slash have n: "n = - 1" by simp
  show ?thesis
    unfolding smack_accesses_add_def accesses_add_def label_add_def
    by (subst get_label_a24)
       (simp add: g n smack_accesses_new_def is_label_known_def MAX_LABELS_CNT_def
          label_bucket_def)
qed

text \<open>Claim C4, as stated, fails: an \<^verbatim>\<open>add\<close> whose subject is a valid 24-byte label and
  whose object is not a valid label fails after the subject has been interned and before
  \<^verbatim>\<open>has_long\<close> is touched.  The engine then holds a label of more than 23 bytes while
  \<^verbatim>\<open>has_long\<close> is still false.\<close>

theorem has_long_iff_counterexample:
  "\<not> (\<forall>e. reachable e \<longrightarrow>
         (has_long e \<longleftrightarrow> (\<exists>l\<in>set (labels e). SHORT_LABEL_LEN < length (label l))))"
proof
  let ?e = "snd (smack_accesses_add smack_accesses_new ''aaaaaaaaaaaaaaaaaaaaaaaa'' ''/'' ''r'')"
  assume "\<forall>e. reachable e \<longrightarrow>
         (has_long e \<longleftrightarrow> (\<exists>l\<in>set (labels e). SHORT_LABEL_LEN < length (label l)))"
  moreover have "reachable ?e" by (intro reachable.intros)
  ultimately have "has_long ?e \<longleftrightarrow> (\<exists>l\<in>set (labels ?e). SHORT_LABEL_LEN < length (label l))"
    by blast
  then show False by (simp add: failed_add_long SHORT_LABEL_LEN_def)
qed

text \<open>Claim C4, amended.  In every engine the library builds: if \<^verbatim>\<open>has_long\<close> is set, some
  interned label is longer than 23 bytes; if the subject or the object of a stored rule is
  longer than 23 bytes, \<^verbatim>\<open>has_long\<close> is set (both hold after every \<^verbatim>\<open>add\<close>,
  \<^verbatim>\<open>add_modify\<close> and bulk load, successful or not); and when \<^verbatim>\<open>has_long\<close> is set, a
  serialization pass in the short format fails before it writes anything, as does
  \<^verbatim>\<open>apply\<close> or \<^verbatim>\<open>clear\<close> when the kernel offers only the short load interface.\<close>

theorem has_long_gate:
  assumes "reachable e"
  shows "(has_long e \<longrightarrow> (\<exists>l\<in>set (labels e). SHORT_LABEL_LEN < length (label l))) \<and>
    (\<forall>i<length (labels e). \<forall>r\<in>set (rules (labels e ! i)).
        SHORT_LABEL_LEN < length (label (labels e ! i)) \<or>
        SHORT_LABEL_LEN < length (label (labels e ! object_id r)) \<longrightarrow> has_long e) \<and>
    (has_long e \<longrightarrow>
       (\<forall>clear load_fd change_fd add_lf w.
           accesses_print e clear load_fd change_fd False add_lf w = (- 1, w)) \<and>
       (\<forall>fs clear w. openat fs ''load2'' = Enoent \<longrightarrow> accesses_apply fs e clear w = (- 1, w)))"
proof -
  from assms have inv: "engine_inv e" and hl: "has_long_inv e"
    by (rule reachable_engine_inv, rule reachable_has_long_inv)
  from inv have len: "\<And>i. i < length (labels e) \<Longrightarrow> len (labels e ! i) = length (label (labels e ! i))"
    and obj: "\<And>i r. i < length (labels e) \<Longrightarrow> r \<in> set (rules (labels e ! i)) \<Longrightarrow>
        object_id r < length (labels e)"
    unfolding engine_inv_def rule_ok_def by blast+
  have 1: "\<exists>l\<in>set (labels e). SHORT_LABEL_LEN < length (label l)" if "has_long e"
  proof -
    from that hl obtain i where i: "i < length (labels e)" "SHORT_LABEL_LEN < len (labels e ! i)"
      unfolding has_long_inv_def by blast
    with len [OF i(1)] show ?thesis by (intro bexI [of _ "labels e ! i"]) simp_all
  qed
  have 2: "has_long e"
    if i: "i < length (labels e)" and r: "r \<in> set (rules (labels e ! i))" and
      long: "SHORT_LABEL_LEN < length (label (labels e ! i)) \<or>
        SHORT_LABEL_LEN < length (label (labels e ! object_id r))" for i r
  proof -
    from long have "SHORT_LABEL_LEN < len (labels e ! i) \<or>
        SHORT_LABEL_LEN < len (labels e ! object_id r)"
      using len [OF i] len [OF obj [OF i r]] by simp
    with hl i r show ?thesis unfolding has_long_inv_def by blast
  qed
  have 3: "accesses_print e clear load_fd change_fd False add_lf w = (- 1, w)"
    if "has_long e" for clear load_fd change_fd add_lf w
    using that by (simp add: accesses_print_def)
  show ?thesis using 1 2 3 accesses_apply_short_long [of e] by blast
qed

lemma add_long_has_long:
  "has_long (snd (smack_accesses_add smack_accesses_new ''aaaaaaaaaaaaaaaaaaaaaaaa'' ''b'' ''r''))"
  unfolding smack_accesses_add_def accesses_add_def label_add_def
  by (subst get_label_a24)
     (simp add: get_label_b smack_accesses_new_def is_label_known_def MAX_LABELS_CNT_def
        label_bucket_def SHORT_LABEL_LEN_def str_to_access_code_def append_rule_def
        ACCESS_TYPE_R_def)

theorem has_long_gate_witness:
  "reachable (snd (smack_accesses_add smack_accesses_new ''aaaaaaaaaaaaaaaaaaaaaaaa'' ''b'' ''r'')) \<and> has_long (snd (smack_accesses_add smack_accesses_new ''aaaaaaaaaaaaaaaaaaaaaaaa'' ''b'' ''r'')) \<and>
   (\<exists>l\<in>set (labels (snd (smack_accesses_add smack_accesses_new ''aaaaaaaaaaaaaaaaaaaaaaaa'' ''b'' ''r''))). SHORT_LABEL_LEN < length (label l)) \<and>
   accesses_print (snd (smack_accesses_add smack_accesses_new ''aaaaaaaaaaaaaaaaaaaaaaaa'' ''b'' ''r'')) False 3 4 False False \<lparr>script = [], wlog = []\<rparr> =
     (- 1, \<lparr>script = [], wlog = []\<rparr>) \<and>
   accesses_apply \<lparr>init_smackfs_mnt = 0, openat = (\<lambda>_. Enoent)(''load'' := Opened 3)\<rparr>
     (snd (smack_accesses_add smack_accesses_new ''aaaaaaaaaaaaaaaaaaaaaaaa'' ''b'' ''r'')) False \<lparr>script = [], wlog = []\<rparr> = (- 1, \<lparr>script = [], wlog = []\<rparr>)"
proof -
  have r: "reachable (snd (smack_accesses_add smack_accesses_new ''aaaaaaaaaaaaaaaaaaaaaaaa'' ''b'' ''r''))" by (intro reachable.intros)
  have "openat \<lparr>init_smackfs_mnt = 0, openat = (\<lambda>_. Enoent)(''load'' := Opened 3)\<rparr> ''load2''
        = Enoent" by simp
  with has_long_gate [OF r] add_long_has_long r show ?thesis by blast
qed

lemma write_loop_log:
  "write_loop fd buf w = (ret, w') \<Longrightarrow>
     (ret = 0 \<or> ret = - 1) \<and>
     (\<exists>evs. wlog w' = wlog w @ evs \<and> (\<forall>ev\<in>set evs. fst ev = fd) \<and>
            prefix (concat (map snd evs)) buf \<and> (ret = 0 \<longrightarrow> concat (map snd evs) = buf))"
proof (induction fd buf w arbitrary: ret w' rule: write_loop.induct)
  case (1 fd buf w)
  show ?case
  proof (cases "buf = []")
    case True
    with 1(3) show ?thesis by (simp add: write_loop.simps)
  next
    case False
    obtain res w1 where sw: "sys_write w fd buf = (res, w1)" by (cases "sys_write w fd buf")
    show ?thesis
    proof (cases res)
      case Eintr
      with sw have l: "wlog w1 = wlog w"
        by (auto simp: sys_write_def split: list.splits write_result.splits)
      from 1(3) False sw Eintr have "write_loop fd buf w1 = (ret, w')"
        by (simp add: write_loop.simps [of fd buf w])
      from 1(2) [OF False sw [symmetric] Eintr this] l show ?thesis by simp
    next
      case Eio
      with sw have l: "wlog w1 = wlog w"
        by (auto simp: sys_write_def split: list.splits write_result.splits)
      from 1(3) False sw Eio have "ret = - 1" "w' = w1"
        by (simp_all add: write_loop.simps [of fd buf w])
      with l show ?thesis by simp
    next
      case (Wrote n)
      with sw have l: "wlog w1 = wlog w @ [(fd, take n buf)]"
        by (auto simp: sys_write_def split: list.splits write_result.splits)
      from 1(3) False sw Wrote have "write_loop fd (drop n buf) w1 = (ret, w')"
        by (simp add: write_loop.simps [of fd buf w])
      from 1(1) [OF False sw [symmetric] Wrote this] obtain evs where
        r: "ret = 0 \<or> ret = - 1" and
        evs: "wlog w' = wlog w1 @ evs" "\<forall>ev\<in>set evs. fst ev = fd"
          "prefix (concat (map snd evs)) (drop n buf)"
          "ret = 0 \<longrightarrow> concat (map snd evs) = drop n buf"
        by blast
      have p: "prefix (take n buf @ concat (map snd evs)) buf"
        using evs(3) by (metis append_take_drop_id same_prefix_prefix)
      show ?thesis
        using r evs l p by (intro conjI exI [of _ "(fd, take n buf) # evs"]) auto
    qed
  qed
qed

lemma write_loop_ready:
  "write_loop fd buf \<lparr>script = [], wlog = l\<rparr> =
     (0, \<lparr>script = [], wlog = l @ (if buf = [] then [] else [(fd, buf)])\<rparr>)"
  by (simp add: write_loop.simps [of fd buf] write_loop.simps [of fd "[]"] sys_write_def)

lemma print_rule_record:
  "print_rule e clear load_fd change_fd use_long add_lf l r w =
     (case rule_record e clear load_fd change_fd use_long add_lf (l, r) of
        None \<Rightarrow> (- 1, w) | Some (fd, buf) \<Rightarrow> write_loop fd buf w)"
  by (simp add: print_rule_def rule_record_def is_modify_rule_def Let_def)

lemma emit_append:
  "emit (xs @ ys) w = (case emit xs w of (ret, w') \<Rightarrow> if ret = 0 then emit ys w' else (- 1, w'))"
proof (induction xs w rule: emit.induct)
  case (1 w)
  show ?case by (simp split: prod.splits)
next
  case (2 rest w)
  show ?case by simp
next
  case (3 fd buf rest w)
  then show ?case by (auto split: prod.splits)
qed

lemma print_rule_chain_emit:
  "print_rule_chain e clear load_fd change_fd use_long add_lf l rs w =
     emit (map (\<lambda>r. rule_record e clear load_fd change_fd use_long add_lf (l, r)) rs) w"
proof (induction rs arbitrary: w)
  case Nil
  show ?case by simp
next
  case (Cons r rs)
  show ?case
  proof (cases "rule_record e clear load_fd change_fd use_long add_lf (l, r)")
    case None
    then show ?thesis by (simp add: print_rule_record)
  next
    case (Some fb)
    obtain fd buf where fb: "fb = (fd, buf)" by (cases fb)
    obtain ret w' where wl: "write_loop fd buf w = (ret, w')" by (cases "write_loop fd buf w")
    then have "ret = 0 \<or> ret = - 1" using write_loop_log by blast
    with Some fb wl Cons.IH show ?thesis by (auto simp: print_rule_record)
  qed
qed

lemma print_labels_emit:
  "print_labels e clear load_fd change_fd use_long add_lf ls w =
     emit (map (rule_record e clear load_fd change_fd use_long add_lf)
             (concat (map (\<lambda>l. map (Pair l) (rules l)) ls))) w"
proof (induction ls arbitrary: w)
  case Nil
  show ?case by simp
next
  case (Cons l ls)
  have m: "map (rule_record e clear load_fd change_fd use_long add_lf) (map (Pair l) (rules l)) =
     map (\<lambda>r. rule_record e clear load_fd change_fd use_long add_lf (l, r)) (rules l)"
    by simp
  show ?case
    by (simp add: emit_append print_rule_chain_emit Cons.IH m del: map_map split: prod.splits)
qed

lemma accesses_print_emit:
  "accesses_print e clear load_fd change_fd use_long add_lf w =
     (if \<not> use_long \<and> has_long e then (- 1, w)
      else emit (map (rule_record e clear load_fd change_fd use_long add_lf) (rule_seq e)) w)"
  by (simp add: accesses_print_def print_labels_emit rule_seq_def)

lemma length_access_code_to_str [simp]: "length (access_code_to_str c) = 6"
  by (simp add: access_code_to_str_def)

lemma kernel_format_load_line:
  "(if use_long then KERNEL_LONG_FORMAT s ob (access_code_to_str c)
    else KERNEL_SHORT_FORMAT s ob (access_code_to_str c)) =
   load_line use_long s ob (access_code_to_str c)"
  by (simp add: load_line_def KERNEL_LONG_FORMAT_def KERNEL_SHORT_FORMAT_def pad_right_def
      pad_left_def)

lemma load_line_nonempty: "load_line use_long s ob acs @ t \<noteq> []"
  by (simp add: load_line_def)

lemma rule_record_nonempty:
  "rule_record e clear load_fd change_fd use_long add_lf lr = Some (fd, buf) \<Longrightarrow> buf \<noteq> []"
  by (auto simp: rule_record_def Let_def KERNEL_LONG_FORMAT_def KERNEL_SHORT_FORMAT_def
      KERNEL_MODIFY_FORMAT_def split: prod.splits if_splits)

lemma planned_all: "None \<notin> set p \<Longrightarrow> planned p = map the p"
  by (induction p rule: planned.induct) simp_all

lemma emit_ready:
  assumes "\<And>fd buf. Some (fd, buf) \<in> set p \<Longrightarrow> buf \<noteq> []"
  shows "emit p \<lparr>script = [], wlog = l\<rparr> =
     (if None \<in> set p then - 1 else 0, \<lparr>script = [], wlog = l @ planned p\<rparr>)"
  using assms
proof (induction p arbitrary: l)
  case Nil
  show ?case by simp
next
  case (Cons x p)
  show ?case
  proof (cases x)
    case None
    then show ?thesis by simp
  next
    case (Some fb)
    obtain fd buf where fb: "fb = (fd, buf)" by (cases fb)
    have ne: "buf \<noteq> []" by (rule Cons.prems [of fd buf]) (simp add: Some fb)
    have rest: "buf' \<noteq> []" if "Some (fd', buf') \<in> set p" for fd' buf'
      by (rule Cons.prems [of fd' buf']) (simp add: that)
    from Cons.IH [OF rest] Some fb ne show ?thesis
      by (simp add: write_loop_ready)
  qed
qed

lemma rule_seq_member:
  "i < length (labels e) \<Longrightarrow> r \<in> set (rules (labels e ! i)) \<Longrightarrow>
     (labels e ! i, r) \<in> set (rule_seq e)"
  by (auto simp: rule_seq_def intro!: bexI [of _ "labels e ! i"])

lemma accesses_print_ready:
  "accesses_print e clear load_fd change_fd use_long add_lf \<lparr>script = [], wlog = l\<rparr> =
     (if \<not> use_long \<and> has_long e then (- 1, \<lparr>script = [], wlog = l\<rparr>)
      else (if None \<in> set (map (rule_record e clear load_fd change_fd use_long add_lf) (rule_seq e))
            then - 1 else 0,
            \<lparr>script = [],
             wlog = l @ planned
                       (map (rule_record e clear load_fd change_fd use_long add_lf) (rule_seq e))\<rparr>))"
proof -
  let ?rr = "rule_record e clear load_fd change_fd use_long add_lf"
  have ne: "buf \<noteq> []" if "Some (fd, buf) \<in> set (map ?rr (rule_seq e))" for fd buf
  proof -
    from that obtain x where "?rr x = Some (fd, buf)" by auto
    then show ?thesis by (rule rule_record_nonempty)
  qed
  have E: "emit (map ?rr (rule_seq e)) \<lparr>script = [], wlog = l\<rparr> =
     (if None \<in> set (map ?rr (rule_seq e)) then - 1 else 0,
      \<lparr>script = [], wlog = l @ planned (map ?rr (rule_seq e))\<rparr>)"
    by (rule emit_ready) (rule ne)
  show ?thesis by (simp only: accesses_print_emit E)
qed

lemma accesses_print_logs_record:
  assumes ok: "accesses_print e clear load_fd change_fd use_long add_lf \<lparr>script = [], wlog = l\<rparr>
      = (0, w')"
    and x: "x \<in> set (rule_seq e)"
    and rr: "rule_record e clear load_fd change_fd use_long add_lf x = Some ev"
  shows "\<exists>before after. wlog w' = l @ before @ [ev] @ after"
proof -
  let ?rr = "rule_record e clear load_fd change_fd use_long add_lf"
  define p where "p = map ?rr (rule_seq e)"
  from ok have "None \<notin> set p \<and> wlog w' = l @ planned p"
    unfolding accesses_print_ready p_def [symmetric] by (auto split: if_splits)
  then have w: "wlog w' = l @ map the p" by (simp add: planned_all)
  from x obtain xs ys where "rule_seq e = xs @ x # ys" by (auto simp: in_set_conv_decomp)
  then have "p = map ?rr xs @ Some ev # map ?rr ys" by (simp add: p_def rr)
  with w have "wlog w' = l @ map the (map ?rr xs) @ [ev] @ map the (map ?rr ys)" by simp
  then show ?thesis by blast
qed

lemma accesses_apply_ok:
  assumes "accesses_apply fs e clear w = (0, w')"
  shows "\<exists>load_fd use_long change_fd.
     (openat fs ''load2'' = Opened load_fd \<and> use_long \<or>
      openat fs ''load2'' = Enoent \<and> openat fs ''load'' = Opened load_fd \<and> \<not> use_long) \<and>
     (openat fs ''change-rule'' = Enoent \<and> change_fd = - 1 \<or>
      (\<exists>n. openat fs ''change-rule'' = Opened n \<and> change_fd = int n)) \<and>
     accesses_print e clear (int load_fd) change_fd use_long False w = (0, w')"
proof (cases "openat fs ''load2''")
  case (Opened n)
  with assms show ?thesis
    by (cases "openat fs ''change-rule''")
       (auto simp: accesses_apply_def open_smackfs_file_def split: if_splits)
next
  case Enoent
  show ?thesis
  proof (cases "openat fs ''load''")
    case (Opened n)
    with assms Enoent show ?thesis
      by (cases "openat fs ''change-rule''")
         (auto simp: accesses_apply_def open_smackfs_file_def split: if_splits)
  qed (use assms Enoent in \<open>auto simp: accesses_apply_def open_smackfs_file_def split: if_splits\<close>)
next
  case Eother
  with assms show ?thesis
    by (auto simp: accesses_apply_def open_smackfs_file_def split: if_splits)
qed

text \<open>Claim C5.  After a successful plain \<^verbatim>\<open>add(subject, object, allow_str)\<close> the rule
  appended to the subject's list carries the parsed allow code and, as deny code, its
  complement within the six bits (no common bit, together all bits).  So the rule is not a
  modify rule, and serialization treats it as a load record: the loop body of
  \<^verbatim>\<open>accesses_print\<close> for this rule writes to the load descriptor only, and what it
  writes is the load line of subject, object and allow string (all of it when the
  descriptor accepts the write, a part of it otherwise), whatever the change-rule
  descriptor is; a successful \<^verbatim>\<open>accesses_print\<close>, \<^verbatim>\<open>save\<close> or \<^verbatim>\<open>apply\<close> on accepting
  descriptors has logged that line on the load descriptor (for \<^verbatim>\<open>apply\<close>: the
  descriptor of \<^verbatim>\<open>load2\<close>, or of \<^verbatim>\<open>load\<close> when \<^verbatim>\<open>load2\<close> is absent).\<close>

theorem plain_add_is_load_rule:
  assumes "engine_inv e" and "smack_accesses_add e subject object access_type = (0, e')"
  shows "\<exists>sid oid old.
     sid < length (labels e') \<and> label (labels e' ! sid) = subject \<and>
     oid < length (labels e') \<and> label (labels e' ! oid) = object \<and>
     rules (labels e' ! sid) = old @
       [\<lparr>allow_code = str_to_access_code access_type,
         deny_code = ACCESS_TYPE_ALL - str_to_access_code access_type, object_id = oid\<rparr>] \<and>
     (let r = last (rules (labels e' ! sid)) in
        code_ok (allow_code r) \<and> code_ok (deny_code r) \<and>
        allow_code r AND deny_code r = 0 \<and> allow_code r OR deny_code r = ACCESS_TYPE_ALL \<and>
        \<not> is_modify_rule r \<and>
        (\<forall>clear load_fd change_fd use_long add_lf w.
            print_rule e' clear load_fd change_fd use_long add_lf (labels e' ! sid) r w =
            write_loop load_fd
              ((if use_long then KERNEL_LONG_FORMAT subject object
                                   (access_code_to_str (if clear then 0 else allow_code r))
                else KERNEL_SHORT_FORMAT subject object
                                   (access_code_to_str (if clear then 0 else allow_code r))) @
               (if add_lf then [CHR 0x0A] else [])) w) \<and>
        (\<forall>clear load_fd change_fd use_long add_lf.
            (let line = load_line use_long subject object
                          (access_code_to_str (if clear then 0 else allow_code r)) @
                        (if add_lf then [CHR 0x0A] else [])
             in (\<forall>l. print_rule e' clear load_fd change_fd use_long add_lf (labels e' ! sid) r
                        \<lparr>script = [], wlog = l\<rparr> =
                      (0, \<lparr>script = [], wlog = l @ [(load_fd, line)]\<rparr>)) \<and>
                (\<forall>w ret w'.
                    print_rule e' clear load_fd change_fd use_long add_lf (labels e' ! sid) r w =
                      (ret, w') \<longrightarrow>
                    (\<exists>evs. wlog w' = wlog w @ evs \<and> (\<forall>ev\<in>set evs. fst ev = load_fd) \<and>
                           prefix (concat (map snd evs)) line \<and>
                           (ret = 0 \<longrightarrow> concat (map snd evs) = line))) \<and>
                (\<forall>l w'.
                    accesses_print e' clear load_fd change_fd use_long add_lf
                      \<lparr>script = [], wlog = l\<rparr> = (0, w') \<longrightarrow>
                    (\<exists>before after. wlog w' = l @ before @ [(load_fd, line)] @ after)))) \<and>
        (\<forall>fd l w'.
            smack_accesses_save e' fd \<lparr>script = [], wlog = l\<rparr> = (0, w') \<longrightarrow>
            (\<exists>before after. wlog w' = l @ before @
               [(fd, subject @ '' '' @ object @ '' '' @ access_code_to_str (allow_code r) @
                     [CHR 0x0A])] @ after)) \<and>
        (\<forall>fs l w'.
            smack_accesses_apply fs e' \<lparr>script = [], wlog = l\<rparr> = (0, w') \<longrightarrow>
            (\<exists>load_fd use_long before after.
               (openat fs ''load2'' = Opened load_fd \<and> use_long \<or>
                openat fs ''load2'' = Enoent \<and> openat fs ''load'' = Opened load_fd \<and>
                \<not> use_long) \<and>
               wlog w' = l @ before @
                 [(int load_fd,
                   load_line use_long subject object (access_code_to_str (allow_code r)))] @
                 after)))"
proof -
  from assms obtain sid oid h1 h2 where
    e': "e' = append_rule (mark_long h2 sid oid) sid (new_rule access_type None oid)" and
    a: "str_to_access_code access_type \<noteq> - 1" and
    sid: "sid < length (labels h2)" "label (labels h2 ! sid) = subject" and
    oid: "oid < length (labels h2)" "label (labels h2 ! oid) = object"
    unfolding smack_accesses_add_def using accesses_add_ok [of e subject object access_type None e']
    by blast
  let ?a = "str_to_access_code access_type"
  let ?r = "\<lparr>allow_code = ?a, deny_code = ACCESS_TYPE_ALL - ?a, object_id = oid\<rparr>"
  from a have ca: "code_ok ?a" using str_to_access_code_range [of access_type] by simp
  have nr: "new_rule access_type None oid = ?r"
    by (simp add: new_rule_def complement_code(4) [OF ca])
  have cd: "code_ok (ACCESS_TYPE_ALL - ?a)" "?a AND (ACCESS_TYPE_ALL - ?a) = 0"
    "?a OR (ACCESS_TYPE_ALL - ?a) = ACCESS_TYPE_ALL"
    using complement_code [OF ca] by simp_all
  have ls: "sid < length (labels (mark_long h2 sid oid))" "oid < length (labels (mark_long h2 sid oid))"
    using sid oid by simp_all
  have 1: "sid < length (labels e')" "oid < length (labels e')"
    "label (labels e' ! sid) = subject" "label (labels e' ! oid) = object"
    "rules (labels e' ! sid) = rules (labels h2 ! sid) @ [?r]"
    unfolding e' nr using sid oid append_rule_nth [OF ls(1), of sid ?r]
      append_rule_nth [OF ls(2), of sid ?r] by simp_all
  have last: "last (rules (labels e' ! sid)) = ?r" by (simp add: 1(5))
  define line where "line clear use_long add_lf =
      load_line use_long subject object (access_code_to_str (if clear then 0 else ?a)) @
      (if add_lf then [CHR 0x0A] else [])" for clear use_long add_lf
  have rr: "rule_record e' clear load_fd change_fd use_long add_lf (labels e' ! sid, ?r) =
      Some (load_fd, line clear use_long add_lf)" for clear load_fd change_fd use_long add_lf
    unfolding line_def kernel_format_load_line [symmetric]
    by (simp add: rule_record_def is_modify_rule_def cd(3) 1(3,4))
  have pr: "print_rule e' clear load_fd change_fd use_long add_lf (labels e' ! sid) ?r w =
            write_loop load_fd
              ((if use_long then KERNEL_LONG_FORMAT subject object
                                   (access_code_to_str (if clear then 0 else ?a))
                else KERNEL_SHORT_FORMAT subject object
                                   (access_code_to_str (if clear then 0 else ?a))) @
               (if add_lf then [CHR 0x0A] else [])) w"
    for clear load_fd change_fd use_long add_lf w
    by (simp add: print_rule_def cd(3) 1(3,4))
  have pw: "print_rule e' clear load_fd change_fd use_long add_lf (labels e' ! sid) ?r w =
      write_loop load_fd (line clear use_long add_lf) w"
    for clear load_fd change_fd use_long add_lf w
    by (simp add: print_rule_record rr)
  have ne: "line clear use_long add_lf \<noteq> []" for clear use_long add_lf
    unfolding line_def by (rule load_line_nonempty)
  have p1: "print_rule e' clear load_fd change_fd use_long add_lf (labels e' ! sid) ?r
              \<lparr>script = [], wlog = l\<rparr> =
            (0, \<lparr>script = [], wlog = l @ [(load_fd, line clear use_long add_lf)]\<rparr>)"
    for clear load_fd change_fd use_long add_lf l
    by (simp add: pw write_loop_ready ne)
  have p2: "\<exists>evs. wlog w' = wlog w @ evs \<and> (\<forall>ev\<in>set evs. fst ev = load_fd) \<and>
                 prefix (concat (map snd evs)) (line clear use_long add_lf) \<and>
                 (ret = 0 \<longrightarrow> concat (map snd evs) = line clear use_long add_lf)"
    if "print_rule e' clear load_fd change_fd use_long add_lf (labels e' ! sid) ?r w = (ret, w')"
    for clear load_fd change_fd use_long add_lf w ret w'
    using that write_loop_log [of load_fd "line clear use_long add_lf" w ret w']
    unfolding pw by blast
  have mem: "(labels e' ! sid, ?r) \<in> set (rule_seq e')"
    by (rule rule_seq_member) (simp_all add: 1)
  have p3: "\<exists>before after. wlog w' = l @ before @ [(load_fd, line clear use_long add_lf)] @ after"
    if "accesses_print e' clear load_fd change_fd use_long add_lf \<lparr>script = [], wlog = l\<rparr>
          = (0, w')"
    for clear load_fd change_fd use_long add_lf l w'
    using that mem rr by (rule accesses_print_logs_record)
  have p4: "\<exists>before after. wlog w' = l @ before @
               [(fd, subject @ '' '' @ object @ '' '' @ access_code_to_str ?a @ [CHR 0x0A])] @ after"
    if "smack_accesses_save e' fd \<lparr>script = [], wlog = l\<rparr> = (0, w')" for fd l w'
    using p3 [of False fd fd True True l w'] that
    by (simp add: smack_accesses_save_def line_def load_line_def)
  have p5: "\<exists>load_fd use_long before after.
               (openat fs ''load2'' = Opened load_fd \<and> use_long \<or>
                openat fs ''load2'' = Enoent \<and> openat fs ''load'' = Opened load_fd \<and>
                \<not> use_long) \<and>
               wlog w' = l @ before @
                 [(int load_fd, load_line use_long subject object (access_code_to_str ?a))] @ after"
    if "smack_accesses_apply fs e' \<lparr>script = [], wlog = l\<rparr> = (0, w')" for fs l w'
  proof -
    from that obtain load_fd use_long change_fd where
      o: "openat fs ''load2'' = Opened load_fd \<and> use_long \<or>
          openat fs ''load2'' = Enoent \<and> openat fs ''load'' = Opened load_fd \<and> \<not> use_long" and
      ap: "accesses_print e' False (int load_fd) change_fd use_long False
             \<lparr>script = [], wlog = l\<rparr> = (0, w')"
      unfolding smack_accesses_apply_def using accesses_apply_ok by blast
    from p3 [OF ap] obtain before after where
      "wlog w' = l @ before @
         [(int load_fd, load_line use_long subject object (access_code_to_str ?a))] @ after"
      by (auto simp: line_def)
    with o show ?thesis by blast
  qed
  have sel: "allow_code ?r = ?a" "deny_code ?r = ACCESS_TYPE_ALL - ?a" by simp_all
  have nm: "\<not> is_modify_rule ?r" by (simp add: is_modify_rule_def cd(3))
  note p1' = p1 [unfolded line_def] and p2' = p2 [unfolded line_def]
    and p3' = p3 [unfolded line_def]
  show ?thesis
    apply (rule exI [of _ sid], rule exI [of _ oid], rule exI [of _ "rules (labels h2 ! sid)"])
    unfolding last Let_def
    apply (intro conjI allI impI)
    unfolding sel
    by (rule 1 ca cd nm pr p1' | erule p2' p3' p4 p5)+
qed

lemma add_a_b_rw:
  "smack_accesses_add smack_accesses_new ''a'' ''b'' ''rw'' =
     (0, \<lparr>has_long = False,
      labels = [\<lparr>len = 1, lid = 0, label = ''a'',
                 rules = [\<lparr>allow_code = 3, deny_code = 60, object_id = 1\<rparr>]\<rparr>,
                \<lparr>len = 1, lid = 1, label = ''b'', rules = []\<rparr>],
      label_hash = ((\<lambda>_. [])(1542 := [0]))(1543 := [1])\<rparr>)"
  by (simp add: smack_accesses_add_def accesses_add_def label_add_def get_label_a get_label_b
      smack_accesses_new_def is_label_known_def MAX_LABELS_CNT_def SHORT_LABEL_LEN_def
      str_to_access_code_def append_rule_def ACCESS_TYPE_ALL_def ACC_LEN_def ACCESS_TYPE_R_def
      ACCESS_TYPE_W_def)

lemma apply_a_b_rw:
  "smack_accesses_apply
     \<lparr>init_smackfs_mnt = 0,
      openat = ((\<lambda>_. Enoent)(''load2'' := Opened 3))(''change-rule'' := Opened 4)\<rparr>
     \<lparr>has_long = False,
      labels = [\<lparr>len = 1, lid = 0, label = ''a'',
                 rules = [\<lparr>allow_code = 3, deny_code = 60, object_id = 1\<rparr>]\<rparr>,
                \<lparr>len = 1, lid = 1, label = ''b'', rules = []\<rparr>],
      label_hash = ((\<lambda>_. [])(1542 := [0]))(1543 := [1])\<rparr>
     \<lparr>script = [], wlog = []\<rparr> = (0, \<lparr>script = [], wlog = [(3, ''a b rw----'')]\<rparr>)"
  by (simp add: smack_accesses_apply_def accesses_apply_def open_smackfs_file_def
      accesses_print_def print_rule_def access_code_to_str_def KERNEL_LONG_FORMAT_def
      ACCESS_TYPE_ALL_def ACC_LEN_def ACCESS_TYPE_R_def ACCESS_TYPE_W_def ACCESS_TYPE_X_def
      ACCESS_TYPE_A_def ACCESS_TYPE_T_def ACCESS_TYPE_L_def sys_write_def write_loop.simps)

theorem plain_add_is_load_rule_witness:
  "engine_inv smack_accesses_new \<and>
   (let e' = \<lparr>has_long = False,
      labels = [\<lparr>len = 1, lid = 0, label = ''a'',
                 rules = [\<lparr>allow_code = 3, deny_code = 60, object_id = 1\<rparr>]\<rparr>,
                \<lparr>len = 1, lid = 1, label = ''b'', rules = []\<rparr>],
      label_hash = ((\<lambda>_. [])(1542 := [0]))(1543 := [1])\<rparr> in
    smack_accesses_add smack_accesses_new ''a'' ''b'' ''rw'' = (0, e') \<and>
    smack_accesses_apply
      \<lparr>init_smackfs_mnt = 0,
       openat = ((\<lambda>_. Enoent)(''load2'' := Opened 3))(''change-rule'' := Opened 4)\<rparr>
      e' \<lparr>script = [], wlog = []\<rparr> = (0, \<lparr>script = [], wlog = [(3, ''a b rw----'')]\<rparr>) \<and>
    (\<exists>sid oid old.
     sid < length (labels e') \<and> label (labels e' ! sid) = ''a'' \<and>
     oid < length (labels e') \<and> label (labels e' ! oid) = ''b'' \<and>
     rules (labels e' ! sid) = old @
       [\<lparr>allow_code = str_to_access_code ''rw'',
         deny_code = ACCESS_TYPE_ALL - str_to_access_code ''rw'', object_id = oid\<rparr>] \<and>
     (let r = last (rules (labels e' ! sid)) in
        code_ok (allow_code r) \<and> code_ok (deny_code r) \<and>
        allow_code r AND deny_code r = 0 \<and> allow_code r OR deny_code r = ACCESS_TYPE_ALL \<and>
        \<not> is_modify_rule r \<and>
        (\<forall>clear load_fd change_fd use_long add_lf w.
            print_rule e' clear load_fd change_fd use_long add_lf (labels e' ! sid) r w =
            write_loop load_fd
              ((if use_long then KERNEL_LONG_FORMAT ''a'' ''b''
                                   (access_code_to_str (if clear then 0 else allow_code r))
                else KERNEL_SHORT_FORMAT ''a'' ''b''
                                   (access_code_to_str (if clear then 0 else allow_code r))) @
               (if add_lf then [CHR 0x0A] else [])) w) \<and>
        (\<forall>clear load_fd change_fd use_long add_lf.
            (let line = load_line use_long ''a'' ''b''
                          (access_code_to_str (if clear then 0 else allow_code r)) @
                        (if add_lf then [CHR 0x0A] else [])
             in (\<forall>l. print_rule e' clear load_fd change_fd use_long add_lf (labels e' ! sid) r
                        \<lparr>script = [], wlog = l\<rparr> =
                      (0, \<lparr>script = [], wlog = l @ [(load_fd, line)]\<rparr>)) \<and>
                (\<forall>w ret w'.
                    print_rule e' clear load_fd change_fd use_long add_lf (labels e' ! sid) r w =
                      (ret, w') \<longrightarrow>
                    (\<exists>evs. wlog w' = wlog w @ evs \<and> (\<forall>ev\<in>set evs. fst ev = load_fd) \<and>
                           prefix (concat (map snd evs)) line \<and>
                           (ret = 0 \<longrightarrow> concat (map snd evs) = line))) \<and>
                (\<forall>l w'.
                    accesses_print e' clear load_fd change_fd use_long add_lf
                      \<lparr>script = [], wlog = l\<rparr> = (0, w') \<longrightarrow>
                    (\<exists>before after. wlog w' = l @ before @ [(load_fd, line)] @ after)))) \<and>
        (\<forall>fd l w'.
            smack_accesses_save e' fd \<lparr>script = [], wlog = l\<rparr> = (0, w') \<longrightarrow>
            (\<exists>before after. wlog w' = l @ before @
               [(fd, ''a'' @ '' '' @ ''b'' @ '' '' @ access_code_to_str (allow_code r) @
                     [CHR 0x0A])] @ after)) \<and>
        (\<forall>fs l w'.
            smack_accesses_apply fs e' \<lparr>script = [], wlog = l\<rparr> = (0, w') \<longrightarrow>
            (\<exists>load_fd use_long before after.
               (openat fs ''load2'' = Opened load_fd \<and> use_long \<or>
                openat fs ''load2'' = Enoent \<and> openat fs ''load'' = Opened load_fd \<and>
                \<not> use_long) \<and>
               wlog w' = l @ before @
                 [(int load_fd,
                   load_line use_long ''a'' ''b'' (access_code_to_str (allow_code r)))] @
                 after)))))"
  unfolding Let_def
  by (intro conjI, rule engine_inv_new, rule add_a_b_rw, rule apply_a_b_rw,
      rule plain_add_is_load_rule [OF engine_inv_new add_a_b_rw, unfolded Let_def])

lemma emit_status: "emit p w = (ret, w') \<Longrightarrow> ret = 0 \<or> ret = - 1"
proof (induction p w rule: emit.induct)
  case (3 fd buf rest w)
  then show ?case by (auto split: prod.splits if_splits)
qed simp_all

lemma emit_log_same_fd:
  "emit (map (\<lambda>b. Some (fd, b)) bs) w = (ret, w') \<Longrightarrow>
     \<exists>evs. wlog w' = wlog w @ evs \<and> (\<forall>ev\<in>set evs. fst ev = fd) \<and>
           prefix (concat (map snd evs)) (concat bs) \<and>
           (ret = 0 \<longrightarrow> concat (map snd evs) = concat bs)"
proof (induction bs arbitrary: w)
  case Nil
  then show ?case by simp
next
  case (Cons b bs)
  obtain r1 w1 where wl: "write_loop fd b w = (r1, w1)" by (cases "write_loop fd b w")
  from write_loop_log [OF wl] obtain e1 where
    e1: "wlog w1 = wlog w @ e1" "\<forall>ev\<in>set e1. fst ev = fd" "prefix (concat (map snd e1)) b"
      "r1 = 0 \<longrightarrow> concat (map snd e1) = b"
    by blast
  show ?case
  proof (cases "r1 = 0")
    case True
    with Cons.prems wl have "emit (map (\<lambda>b. Some (fd, b)) bs) w1 = (ret, w')" by simp
    from Cons.IH [OF this] obtain e2 where
      e2: "wlog w' = wlog w1 @ e2" "\<forall>ev\<in>set e2. fst ev = fd"
        "prefix (concat (map snd e2)) (concat bs)"
        "ret = 0 \<longrightarrow> concat (map snd e2) = concat bs"
      by blast
    from e1 e2 True show ?thesis
      by (intro exI [of _ "e1 @ e2"]) auto
  next
    case False
    with Cons.prems wl have "w' = w1" "ret = - 1" by simp_all
    with e1 show ?thesis
      by (intro exI [of _ e1]) (auto intro: prefix_order.trans)
  qed
qed


lemma rule_record_apply:
  "rule_record e False load_fd change_fd use_long add_lf (s, r) =
     (if is_modify_rule r then
        (if change_fd < 0 then None
         else Some (change_fd,
                label s @ '' '' @ label (labels e ! object_id r) @ '' '' @
                access_code_to_str (allow_code r) @ '' '' @ access_code_to_str (deny_code r) @
                (if add_lf then [CHR 0x0A] else [])))
      else Some (load_fd,
             load_line use_long (label s) (label (labels e ! object_id r))
               (access_code_to_str (allow_code r)) @ (if add_lf then [CHR 0x0A] else [])))"
  using kernel_format_load_line [of use_long "label s" "label (labels e ! object_id r)" "allow_code r"]
  by (simp add: rule_record_def KERNEL_MODIFY_FORMAT_def)









lemma emit_until_None:
  "emit (map (\<lambda>b. Some (fd, b)) bs @ None # rest) w =
     (- 1, snd (emit (map (\<lambda>b. Some (fd, b)) bs) w))"
  by (cases "emit (map (\<lambda>b. Some (fd, b)) bs) w") (simp add: emit_append)

lemma planned_until_None: "planned (map (\<lambda>b. Some (f b)) bs @ None # rest) = map f bs"
  by (induction bs) simp_all

lemma rule_seq_modify:
  "(\<exists>x\<in>set (rule_seq e). is_modify_rule (snd x)) \<longleftrightarrow>
   (\<exists>l\<in>set (labels e). \<exists>r\<in>set (rules l). is_modify_rule r)"
  by (auto simp: rule_seq_def)

text \<open>The records planned when the change-rule descriptor is missing: the load lines of
  the rules before the first modify rule, then \<open>None\<close>.\<close>

lemma plan_without_change_rule:
  assumes m: "\<exists>l\<in>set (labels e). \<exists>r\<in>set (rules l). is_modify_rule r" and c: "change_fd < 0"
  shows "\<exists>rest. map (rule_record e False load_fd change_fd use_long add_lf) (rule_seq e) =
     map (\<lambda>b. Some (load_fd, b))
       (map (\<lambda>x. load_line use_long (label (fst x)) (label (labels e ! object_id (snd x)))
                    (access_code_to_str (allow_code (snd x))) @
                  (if add_lf then [CHR 0x0A] else []))
          (takeWhile (\<lambda>x. \<not> is_modify_rule (snd x)) (rule_seq e))) @ None # rest"
proof -
  let ?P = "\<lambda>x. \<not> is_modify_rule (snd x)"
  let ?rr = "rule_record e False load_fd change_fd use_long add_lf"
  let ?line = "\<lambda>x. load_line use_long (label (fst x)) (label (labels e ! object_id (snd x)))
                    (access_code_to_str (allow_code (snd x))) @
                  (if add_lf then [CHR 0x0A] else [])"
  from m have "\<exists>x\<in>set (rule_seq e). is_modify_rule (snd x)" by (simp add: rule_seq_modify)
  then have "dropWhile ?P (rule_seq e) \<noteq> []" by (simp add: dropWhile_eq_Nil_conv)
  then obtain y ys where d: "dropWhile ?P (rule_seq e) = y # ys"
    by (cases "dropWhile ?P (rule_seq e)") auto
  then have my: "is_modify_rule (snd y)" using hd_dropWhile [of ?P "rule_seq e"] by auto
  have s: "rule_seq e = takeWhile ?P (rule_seq e) @ y # ys"
    using takeWhile_dropWhile_id [of ?P "rule_seq e"] d by simp
  have pre: "map ?rr (takeWhile ?P (rule_seq e)) =
      map (\<lambda>b. Some (load_fd, b)) (map ?line (takeWhile ?P (rule_seq e)))"
  proof -
    have "?rr x = Some (load_fd, ?line x)" if "x \<in> set (takeWhile ?P (rule_seq e))" for x
    proof -
      from that have "\<not> is_modify_rule (snd x)" by (rule set_takeWhileD [THEN conjunct2])
      then show ?thesis by (cases x) (simp add: rule_record_apply)
    qed
    then show ?thesis by simp
  qed
  have y: "?rr y = None" using my c by (cases y) (simp add: rule_record_apply)
  have "map ?rr (rule_seq e) = map ?rr (takeWhile ?P (rule_seq e)) @ ?rr y # map ?rr ys"
    by (subst s) simp
  then show ?thesis unfolding pre y by blast
qed

lemma accesses_print_without_change_rule:
  assumes m: "\<exists>l\<in>set (labels e). \<exists>r\<in>set (rules l). is_modify_rule r" and c: "change_fd < 0"
  shows "accesses_print e False load_fd change_fd use_long add_lf w =
     (if \<not> use_long \<and> has_long e then (- 1, w)
      else (- 1, snd (emit (map (\<lambda>b. Some (load_fd, b))
                (map (\<lambda>b. b @ (if add_lf then [CHR 0x0A] else []))
                   (load_records_before_modify e use_long))) w)))"
proof -
  from plan_without_change_rule [OF m c, of load_fd use_long add_lf] obtain rest where
    "map (rule_record e False load_fd change_fd use_long add_lf) (rule_seq e) =
     map (\<lambda>b. Some (load_fd, b))
       (map (\<lambda>b. b @ (if add_lf then [CHR 0x0A] else []))
          (load_records_before_modify e use_long)) @ None # rest"
    by (auto simp: load_records_before_modify_def comp_def)
  then show ?thesis
    by (simp only: accesses_print_emit emit_until_None)
qed

lemma accesses_print_without_change_rule_ready:
  assumes m: "\<exists>l\<in>set (labels e). \<exists>r\<in>set (rules l). is_modify_rule r" and c: "change_fd < 0"
  shows "accesses_print e False load_fd change_fd use_long add_lf \<lparr>script = [], wlog = l\<rparr> =
     (- 1, \<lparr>script = [],
            wlog = l @ (if \<not> use_long \<and> has_long e then []
                        else map (\<lambda>b. (load_fd, b @ (if add_lf then [CHR 0x0A] else [])))
                               (load_records_before_modify e use_long))\<rparr>)"
proof -
  from plan_without_change_rule [OF m c, of load_fd use_long add_lf] obtain rest where
    p: "map (rule_record e False load_fd change_fd use_long add_lf) (rule_seq e) =
     map (\<lambda>b. Some (load_fd, b @ (if add_lf then [CHR 0x0A] else [])))
          (load_records_before_modify e use_long) @ None # rest"
    by (auto simp: load_records_before_modify_def comp_def)
  show ?thesis
    unfolding accesses_print_ready p planned_until_None by simp
qed

lemma accesses_print_without_change_rule_log:
  assumes m: "\<exists>l\<in>set (labels e). \<exists>r\<in>set (rules l). is_modify_rule r" and c: "change_fd < 0"
  shows "fst (accesses_print e False load_fd change_fd use_long False w) = - 1 \<and>
     (\<exists>evs. wlog (snd (accesses_print e False load_fd change_fd use_long False w)) =
              wlog w @ evs \<and>
            (\<forall>ev\<in>set evs. fst ev = load_fd) \<and>
            prefix (concat (map snd evs)) (concat (load_records_before_modify e use_long)))"
proof (cases "\<not> use_long \<and> has_long e")
  case True
  then show ?thesis
    by (simp add: accesses_print_without_change_rule [OF m c])
next
  case False
  let ?bs = "load_records_before_modify e use_long"
  obtain ret w' where em: "emit (map (\<lambda>b. Some (load_fd, b)) ?bs) w = (ret, w')"
    by (cases "emit (map (\<lambda>b. Some (load_fd, b)) ?bs) w")
  from emit_log_same_fd [OF em] obtain evs where
    "wlog w' = wlog w @ evs" "\<forall>ev\<in>set evs. fst ev = load_fd"
    "prefix (concat (map snd evs)) (concat ?bs)"
    by blast
  with False em show ?thesis
    by (simp add: accesses_print_without_change_rule [OF m c])
qed

text \<open>Claim C1.  Let the engine hold at least one modify rule (a rule whose allow and deny
  masks do not cover all six bits) and let the open of \<^verbatim>\<open>change-rule\<close> fail with
  \<^verbatim>\<open>ENOENT\<close>.  Then \<^verbatim>\<open>smack_accesses_apply\<close> returns \<^verbatim>\<open>-1\<close> in every world.  All it
  has written went to one descriptor, the one opened for \<^verbatim>\<open>load2\<close> (or for \<^verbatim>\<open>load\<close>
  when \<^verbatim>\<open>load2\<close> is absent), and the bytes written are a prefix of the load records
  of the rules that precede the first modify rule: nothing is written for the modify rule
  itself, in load form or otherwise, and nothing for any rule after it.  When every write
  is accepted in full, \<^verbatim>\<open>accesses_print\<close> without a change-rule descriptor writes
  exactly those records and returns \<^verbatim>\<open>-1\<close>.\<close>

theorem apply_fails_without_change_rule:
  assumes "\<exists>l\<in>set (labels e). \<exists>r\<in>set (rules l). is_modify_rule r"
    and "openat fs ''change-rule'' = Enoent"
  shows "fst (smack_accesses_apply fs e w) = - 1 \<and>
     (\<exists>load_fd use_long evs.
        wlog (snd (smack_accesses_apply fs e w)) = wlog w @ evs \<and>
        (evs = [] \<or> openat fs ''load2'' = Opened load_fd \<and> use_long \<or>
         openat fs ''load2'' = Enoent \<and> openat fs ''load'' = Opened load_fd \<and> \<not> use_long) \<and>
        (\<forall>ev\<in>set evs. fst ev = int load_fd) \<and>
        prefix (concat (map snd evs)) (concat (load_records_before_modify e use_long))) \<and>
     (\<forall>load_fd change_fd use_long add_lf l.
        change_fd < 0 \<longrightarrow>
        accesses_print e False load_fd change_fd use_long add_lf \<lparr>script = [], wlog = l\<rparr> =
          (- 1, \<lparr>script = [],
                 wlog = l @ (if \<not> use_long \<and> has_long e then []
                             else map (\<lambda>b. (load_fd, b @ (if add_lf then [CHR 0x0A] else [])))
                                    (load_records_before_modify e use_long))\<rparr>))"
proof (intro conjI allI impI)
  fix load_fd change_fd :: int and use_long add_lf l
  assume "change_fd < 0"
  then show "accesses_print e False load_fd change_fd use_long add_lf \<lparr>script = [], wlog = l\<rparr> =
          (- 1, \<lparr>script = [],
                 wlog = l @ (if \<not> use_long \<and> has_long e then []
                             else map (\<lambda>b. (load_fd, b @ (if add_lf then [CHR 0x0A] else [])))
                                    (load_records_before_modify e use_long))\<rparr>)"
    by (rule accesses_print_without_change_rule_ready [OF assms(1)])
next
  have stop: "smack_accesses_apply fs e w = (- 1, w) \<or>
      (\<exists>n ul. (openat fs ''load2'' = Opened n \<and> ul \<or>
                openat fs ''load2'' = Enoent \<and> openat fs ''load'' = Opened n \<and> \<not> ul) \<and>
         smack_accesses_apply fs e w = accesses_print e False (int n) (- 1) ul False w)"
    using assms(2)
    by (cases "openat fs ''load2''"; cases "openat fs ''load''")
       (auto simp add: smack_accesses_apply_def accesses_apply_def open_smackfs_file_def)
  have "fst (smack_accesses_apply fs e w) = - 1 \<and>
     (\<exists>load_fd use_long evs.
        wlog (snd (smack_accesses_apply fs e w)) = wlog w @ evs \<and>
        (evs = [] \<or> openat fs ''load2'' = Opened load_fd \<and> use_long \<or>
         openat fs ''load2'' = Enoent \<and> openat fs ''load'' = Opened load_fd \<and> \<not> use_long) \<and>
        (\<forall>ev\<in>set evs. fst ev = int load_fd) \<and>
        prefix (concat (map snd evs)) (concat (load_records_before_modify e use_long)))"
  proof (cases "smack_accesses_apply fs e w = (- 1, w)")
    case True
    then show ?thesis by simp
  next
    case False
    with stop obtain n ul where
      o: "openat fs ''load2'' = Opened n \<and> ul \<or>
          openat fs ''load2'' = Enoent \<and> openat fs ''load'' = Opened n \<and> \<not> ul" and
      a: "smack_accesses_apply fs e w = accesses_print e False (int n) (- 1) ul False w"
      by blast
    from accesses_print_without_change_rule_log [OF assms(1), of "- 1" "int n" ul w]
    obtain evs where
      "fst (accesses_print e False (int n) (- 1) ul False w) = - 1"
      "wlog (snd (accesses_print e False (int n) (- 1) ul False w)) = wlog w @ evs"
      "\<forall>ev\<in>set evs. fst ev = int n"
      "prefix (concat (map snd evs)) (concat (load_records_before_modify e ul))"
      by auto
    with o show ?thesis
      unfolding a by (intro conjI exI [of _ n] exI [of _ ul] exI [of _ evs]) simp_all
  qed
  then show "fst (smack_accesses_apply fs e w) = - 1"
    and "\<exists>load_fd use_long evs.
        wlog (snd (smack_accesses_apply fs e w)) = wlog w @ evs \<and>
        (evs = [] \<or> openat fs ''load2'' = Opened load_fd \<and> use_long \<or>
         openat fs ''load2'' = Enoent \<and> openat fs ''load'' = Opened load_fd \<and> \<not> use_long) \<and>
        (\<forall>ev\<in>set evs. fst ev = int load_fd) \<and>
        prefix (concat (map snd evs)) (concat (load_records_before_modify e use_long))"
    by blast+
qed

lemma get_label_c: "get_label ''c'' = (1, ''c'', 1544)"
  by (simp add: get_label_def c_str_def label_char_bad_def SMACK_LABEL_LEN_def DICT_HASH_SIZE_def)

text \<open>An engine with a plain rule, then a modify rule, then another plain rule.\<close>

lemma add_a_c_r_then_modify_then_w:
  "(case smack_accesses_add smack_accesses_new ''a'' ''c'' ''r'' of
      (r1, e1) \<Rightarrow>
        (case smack_accesses_add_modify e1 ''a'' ''b'' ''rw'' ''x'' of
           (r2, e2) \<Rightarrow>
             (case smack_accesses_add e2 ''a'' ''b'' ''w'' of
                (r3, e3) \<Rightarrow> (r1, r2, r3, e3)))) =
     (0, 0, 0, \<lparr>has_long = False,
      labels = [\<lparr>len = 1, lid = 0, label = ''a'',
                 rules = [\<lparr>allow_code = 1, deny_code = 62, object_id = 1\<rparr>,
                          \<lparr>allow_code = 3, deny_code = 4, object_id = 2\<rparr>,
                          \<lparr>allow_code = 2, deny_code = 61, object_id = 2\<rparr>]\<rparr>,
                \<lparr>len = 1, lid = 1, label = ''c'', rules = []\<rparr>,
                \<lparr>len = 1, lid = 2, label = ''b'', rules = []\<rparr>],
      label_hash = (((\<lambda>_. [])(1542 := [0]))(1544 := [1]))(1543 := [2])\<rparr>)"
  by (simp add: smack_accesses_add_def smack_accesses_add_modify_def accesses_add_def
      label_add_def get_label_a get_label_b get_label_c smack_accesses_new_def
      is_label_known_def MAX_LABELS_CNT_def SHORT_LABEL_LEN_def
      str_to_access_code_def append_rule_def ACCESS_TYPE_R_def ACCESS_TYPE_W_def
      ACCESS_TYPE_X_def ACCESS_TYPE_ALL_63 numeral_2_eq_2)

theorem apply_fails_without_change_rule_witness:
  "(let e = \<lparr>has_long = False,
      labels = [\<lparr>len = 1, lid = 0, label = ''a'',
                 rules = [\<lparr>allow_code = 1, deny_code = 62, object_id = 1\<rparr>,
                          \<lparr>allow_code = 3, deny_code = 4, object_id = 2\<rparr>,
                          \<lparr>allow_code = 2, deny_code = 61, object_id = 2\<rparr>]\<rparr>,
                \<lparr>len = 1, lid = 1, label = ''c'', rules = []\<rparr>,
                \<lparr>len = 1, lid = 2, label = ''b'', rules = []\<rparr>],
      label_hash = (((\<lambda>_. [])(1542 := [0]))(1544 := [1]))(1543 := [2])\<rparr>;
        fs = \<lparr>init_smackfs_mnt = 0, openat = (\<lambda>_. Enoent)(''load2'' := Opened 3)\<rparr>;
        w0 = \<lparr>script = [], wlog = []\<rparr>
    in (case smack_accesses_add smack_accesses_new ''a'' ''c'' ''r'' of
          (r1, e1) \<Rightarrow>
            (case smack_accesses_add_modify e1 ''a'' ''b'' ''rw'' ''x'' of
               (r2, e2) \<Rightarrow>
                 (case smack_accesses_add e2 ''a'' ''b'' ''w'' of
                    (r3, e3) \<Rightarrow> (r1, r2, r3, e3)))) = (0, 0, 0, e) \<and>
       is_modify_rule \<lparr>allow_code = 3, deny_code = 4, object_id = 2\<rparr> \<and>
       openat fs ''change-rule'' = Enoent \<and>
       load_records_before_modify e True = [''a c r-----''] \<and>
       fst (smack_accesses_apply fs e w0) = - 1 \<and>
       smack_accesses_apply fs e w0 = accesses_print e False 3 (- 1) True False w0 \<and>
       accesses_print e False 3 (- 1) True False w0 =
         (- 1, \<lparr>script = [], wlog = [(3, ''a c r-----'')]\<rparr>))"
proof -
  let ?e = "\<lparr>has_long = False,
      labels = [\<lparr>len = 1, lid = 0, label = ''a'',
                 rules = [\<lparr>allow_code = 1, deny_code = 62, object_id = 1\<rparr>,
                          \<lparr>allow_code = 3, deny_code = 4, object_id = 2\<rparr>,
                          \<lparr>allow_code = 2, deny_code = 61, object_id = 2\<rparr>]\<rparr>,
                \<lparr>len = 1, lid = 1, label = ''c'', rules = []\<rparr>,
                \<lparr>len = 1, lid = 2, label = ''b'', rules = []\<rparr>],
      label_hash = (((\<lambda>_. [])(1542 := [0]))(1544 := [1]))(1543 := [2])\<rparr>"
  let ?fs = "\<lparr>init_smackfs_mnt = 0, openat = (\<lambda>_. Enoent)(''load2'' := Opened 3)\<rparr>"
  let ?w0 = "\<lparr>script = [], wlog = []\<rparr>"
  have m: "is_modify_rule \<lparr>allow_code = 3, deny_code = 4, object_id = 2\<rparr>"
    by (simp add: is_modify_rule_def ACCESS_TYPE_ALL_63)
  have n1: "\<not> is_modify_rule \<lparr>allow_code = 1, deny_code = 62, object_id = k\<rparr>" for k
    by (simp add: is_modify_rule_def ACCESS_TYPE_ALL_63)
  have ex: "\<exists>l\<in>set (labels ?e). \<exists>r\<in>set (rules l). is_modify_rule r"
    using m by simp
  have c: "openat ?fs ''change-rule'' = Enoent" by simp
  have recs: "load_records_before_modify ?e True = [''a c r-----'']"
    by (simp add: load_records_before_modify_def rule_seq_def m n1 load_line_def
        access_code_to_str_def ACCESS_TYPE_R_def ACCESS_TYPE_W_def ACCESS_TYPE_X_def
        ACCESS_TYPE_A_def ACCESS_TYPE_T_def ACCESS_TYPE_L_def)
  have ap: "smack_accesses_apply ?fs ?e ?w0 = accesses_print ?e False 3 (- 1) True False ?w0"
    by (simp add: smack_accesses_apply_def accesses_apply_def open_smackfs_file_def)
  from apply_fails_without_change_rule [OF ex c, of ?w0]
  have t: "fst (smack_accesses_apply ?fs ?e ?w0) = - 1"
    and p: "accesses_print ?e False 3 (- 1) True False ?w0 =
      (- 1, \<lparr>script = [],
         wlog = [] @ (if \<not> True \<and> has_long ?e then []
                   else map (\<lambda>b. (3, b @ (if False then [CHR 0x0A] else [])))
                          (load_records_before_modify ?e True))\<rparr>)"
    by (blast, simp)
  show ?thesis
    unfolding Let_def add_a_c_r_then_modify_then_w
    using m c recs t ap p [unfolded recs] by simp
qed

text \<open>Every record of an engine that satisfies the invariant fits the buffer of
  \<^verbatim>\<open>accesses_print\<close>: at most \<^verbatim>\<open>LOAD_LEN\<close> bytes before the optional newline, which
  then goes to \<^verbatim>\<open>buf[cnt]\<close> with \<^verbatim>\<open>cnt \<le> LOAD_LEN\<close>.\<close>

lemma record_fits_buffer:
  assumes inv: "engine_inv e" and l: "l \<in> set (labels e)" and r: "r \<in> set (rules l)"
    and rec: "rule_record e clear load_fd change_fd use_long False (l, r) = Some (fd, buf)"
  shows "length buf \<le> LOAD_LEN"
proof -
  from l obtain i where i: "i < length (labels e)" "labels e ! i = l"
    by (auto simp: in_set_conv_nth)
  from inv i r have s: "length (label l) \<le> 255" and ro: "rule_ok e r"
    by (auto simp: engine_inv_def valid_label_def)
  from ro have "object_id r < length (labels e)" by (simp add: rule_ok_def)
  with inv have ob: "length (label (labels e ! object_id r)) \<le> 255"
    by (auto simp: engine_inv_def valid_label_def)
  from rec s ob show ?thesis
    by (auto simp: rule_record_def Let_def KERNEL_LONG_FORMAT_def KERNEL_SHORT_FORMAT_def
        KERNEL_MODIFY_FORMAT_def pad_right_def pad_left_def LOAD_LEN_def SMACK_LABEL_LEN_def
        ACC_LEN_def split: if_splits)
qed

end
